theory Spec2Isabelle
  imports Complex_Main "HOL-Library.Sublist"
begin

section \<open>Numbers, errors and the tree model\<close>

text \<open>
  The values the search compares are Python numbers together with the two sentinels
  \<^verbatim>\<open>float("-inf")\<close> and \<^verbatim>\<open>float("inf")\<close>. Only comparisons, \<^verbatim>\<open>max\<close> and \<^verbatim>\<open>min\<close>
  are applied to them by the minimax code, so a finite number is read as the real it denotes.
\<close>

datatype pynum = NegInf | Num real | PosInf

instantiation pynum :: linorder
begin

fun less_eq_pynum :: "pynum \<Rightarrow> pynum \<Rightarrow> bool" where
  "less_eq_pynum NegInf _ = True"
| "less_eq_pynum (Num x) NegInf = False"
| "less_eq_pynum (Num x) (Num y) = (x \<le> y)"
| "less_eq_pynum (Num x) PosInf = True"
| "less_eq_pynum PosInf PosInf = True"
| "less_eq_pynum PosInf _ = False"

definition less_pynum :: "pynum \<Rightarrow> pynum \<Rightarrow> bool" where
  "less_pynum a b = (a \<le> b \<and> \<not> b \<le> a)"

instance
proof
  fix x y z :: pynum
  show "(x < y) = (x \<le> y \<and> \<not> y \<le> x)" by (simp add: less_pynum_def)
  show "x \<le> x" by (cases x) simp_all
  show "x \<le> y \<Longrightarrow> y \<le> z \<Longrightarrow> x \<le> z" by (cases x; cases y; cases z) simp_all
  show "x \<le> y \<Longrightarrow> y \<le> x \<Longrightarrow> x = y" by (cases x; cases y) simp_all
  show "x \<le> y \<or> y \<le> x" by (cases x; cases y) auto
qed

end

text \<open>
  The exceptions a run can end in. \<open>TreeFormatError\<close> and \<open>ConfigError\<close> are the two
  error kinds the specification names; the others are the Python built-ins the code can raise.
\<close>

datatype error = KeyError | TypeError | IndexError | ZeroDivisionError
  | TreeFormatError | ConfigError

text \<open>
  \<^verbatim>\<open>class TreeNode\<close>. The fields of \<^verbatim>\<open>visualizer_minimax.py\<close> form the record
  \<open>treenode\<close>; \<^verbatim>\<open>visualizer_all.py\<close> adds the two counters of the Monte Carlo search.
  Positions and drawing objects are left out. The \<^verbatim>\<open>children\<close> list is the recursive
  part, so a node is a record of fields together with the list of its child nodes. Every
  child is created inside \<^verbatim>\<open>_build_subtree\<close> and appended to exactly one parent, so
  the object graph is a tree and \<^verbatim>\<open>child.parent\<close> is the node that holds the child.
\<close>

record treenode =
  node_id :: string
  nvalue :: "pynum option"
  depth :: nat
  is_max_node :: bool
  alpha :: pynum
  beta :: pynum
  pruned :: bool

record treenode_all = treenode +
  visits :: nat
  wins :: nat

datatype 'f tree = Node (info: 'f) (children: "'f tree list")

type_synonym node = "treenode_all tree"
type_synonym mm_node = "treenode tree"

text \<open>The tree file: each entry has an \<^verbatim>\<open>"id"\<close>, an optional \<^verbatim>\<open>"value"\<close> and an
  optional \<^verbatim>\<open>"children"\<close> list, which the builder reads with the default \<^verbatim>\<open>[]\<close>.\<close>

datatype json_node = JNode (jid: "string option") (jvalue: "real option")
  (jchildren: "json_node list")

datatype tree_data = EmptyData | MissingRoot | RootData json_node

subsection \<open>Building the tree (\<^verbatim>\<open>visualizer_all.py\<close>)\<close>

definition TreeNode :: "string \<Rightarrow> pynum option \<Rightarrow> treenode_all" where
  "TreeNode i v = \<lparr>node_id = i, nvalue = v, depth = 0, is_max_node = True,
     alpha = NegInf, beta = PosInf, pruned = False, visits = 0, wins = 0\<rparr>"

text \<open>\<open>build_subtree d depth is_max\<close> creates the node of the entry \<open>d\<close>
  (\<^verbatim>\<open>TreeNode(d["id"], d.get("value"))\<close>, a \<^verbatim>\<open>KeyError\<close> when the id is absent) and then
  runs \<^verbatim>\<open>_build_subtree\<close> on it; \<open>build_children\<close> is its \<^verbatim>\<open>for\<close> loop.\<close>

fun build_subtree :: "json_node \<Rightarrow> nat \<Rightarrow> bool \<Rightarrow> error + node"
  and build_children :: "json_node list \<Rightarrow> nat \<Rightarrow> bool \<Rightarrow> error + node list" where
  "build_subtree (JNode i v cs) d is_max =
     (case i of
        None \<Rightarrow> Inl KeyError
      | Some s \<Rightarrow>
          (case build_children cs (d + 1) (\<not> is_max) of
             Inl e \<Rightarrow> Inl e
           | Inr ts \<Rightarrow>
               Inr (Node ((TreeNode s (map_option Num v))\<lparr>depth := d, is_max_node := is_max\<rparr>) ts)))"
| "build_children [] d is_max = Inr []"
| "build_children (c # cs) d is_max =
     (case build_subtree c d is_max of
        Inl e \<Rightarrow> Inl e
      | Inr t \<Rightarrow>
          (case build_children cs d is_max of
             Inl e \<Rightarrow> Inl e
           | Inr ts \<Rightarrow> Inr (t # ts)))"

fun build_tree :: "tree_data \<Rightarrow> error + node option" where
  "build_tree EmptyData = Inr None"
| "build_tree MissingRoot = Inl KeyError"
| "build_tree (RootData r) =
     (case build_subtree r 0 True of Inl e \<Rightarrow> Inl e | Inr t \<Rightarrow> Inr (Some t))"

subsection \<open>Minimax with alpha-beta pruning (\<^verbatim>\<open>visualizer_all.py\<close>)\<close>

definition set_pruned :: "('z treenode_scheme) tree \<Rightarrow> ('z treenode_scheme) tree" where
  "set_pruned t = Node ((info t)\<lparr>pruned := True\<rparr>) (children t)"

text \<open>The comparison that decides whether the child replaces the current best. The first
  processed child is taken without a comparison; afterwards \<^verbatim>\<open>child_value > value\<close>
  (or \<^verbatim>\<open><\<close>) is evaluated, which raises \<^verbatim>\<open>TypeError\<close> on \<^verbatim>\<open>None\<close>.\<close>

definition update_value :: "bool \<Rightarrow> nat option \<Rightarrow> pynum option \<Rightarrow> pynum \<Rightarrow> error + bool" where
  "update_value is_max best_child child_value v =
     (if best_child = None then Inr True
      else (case child_value of
              None \<Rightarrow> Inl TypeError
            | Some x \<Rightarrow> Inr (if is_max then x > v else x < v)))"

text \<open>
  \<open>minimax pruning node a b\<close> returns the value and the subtree as the call leaves it.
  \<open>minimax_loop\<close> is the \<^verbatim>\<open>for i, child in enumerate(node.children)\<close> loop: its state
  is the window, the running value, the index of the best child, the children already
  passed (so \<open>i = length done\<close>) and the children still to come.
\<close>

fun minimax :: "bool \<Rightarrow> node \<Rightarrow> pynum \<Rightarrow> pynum \<Rightarrow> error + (pynum option \<times> node)"
  and minimax_loop :: "bool \<Rightarrow> bool \<Rightarrow> pynum \<Rightarrow> pynum \<Rightarrow> pynum \<Rightarrow> nat option
      \<Rightarrow> node list \<Rightarrow> node list \<Rightarrow> error + (pynum \<times> nat option \<times> node list)" where
  "minimax pruning (Node f cs) a b =
     (let f' = f\<lparr>alpha := a, beta := b\<rparr> in
      if cs = [] then Inr (nvalue f', Node f' cs)
      else
        (case minimax_loop pruning (is_max_node f') a b
                (if is_max_node f' then NegInf else PosInf) None [] cs of
           Inl e \<Rightarrow> Inl e
         | Inr (v, best_child, cs') \<Rightarrow> Inr (Some v, Node (f'\<lparr>nvalue := Some v\<rparr>) cs')))"
| "minimax_loop pruning is_max a b v best_child done [] = Inr (v, best_child, done)"
| "minimax_loop pruning is_max a b v best_child done (c # rest) =
     (if pruned (info c) then minimax_loop pruning is_max a b v best_child (done @ [c]) rest
      else
        (case minimax pruning c a b of
           Inl e \<Rightarrow> Inl e
         | Inr (child_value, c') \<Rightarrow>
             (case update_value is_max best_child child_value v of
                Inl e \<Rightarrow> Inl e
              | Inr upd \<Rightarrow>
                  (case (if upd then child_value else Some v) of
                     None \<Rightarrow> Inl TypeError
                   | Some v1 \<Rightarrow>
                       (let best1 = (if upd then Some (length done) else best_child);
                            a1 = (if is_max then max a v1 else a);
                            b1 = (if is_max then b else min b v1)
                        in if pruning \<and> b1 \<le> a1
                           then Inr (v1, best1, done @ [c'] @ map set_pruned rest)
                           else minimax_loop pruning is_max a1 b1 v1 best1 (done @ [c']) rest)))))"

definition run_minimax :: "bool \<Rightarrow> node \<Rightarrow> error + (pynum option \<times> node)" where
  "run_minimax pruning rt = minimax pruning rt NegInf PosInf"

subsection \<open>The same code in \<^verbatim>\<open>visualizer_minimax.py\<close>\<close>

text \<open>The second file has its own \<^verbatim>\<open>TreeNode\<close> (no parent, no counters) and its own copy
  of the builder and of \<^verbatim>\<open>minimax\<close>; they are translated separately here.\<close>

definition mm_TreeNode :: "string \<Rightarrow> pynum option \<Rightarrow> treenode" where
  "mm_TreeNode i v = \<lparr>node_id = i, nvalue = v, depth = 0, is_max_node = True,
     alpha = NegInf, beta = PosInf, pruned = False\<rparr>"

fun mm_build_subtree :: "json_node \<Rightarrow> nat \<Rightarrow> bool \<Rightarrow> error + mm_node"
  and mm_build_children :: "json_node list \<Rightarrow> nat \<Rightarrow> bool \<Rightarrow> error + mm_node list" where
  "mm_build_subtree (JNode i v cs) d is_max =
     (case i of
        None \<Rightarrow> Inl KeyError
      | Some s \<Rightarrow>
          (case mm_build_children cs (d + 1) (\<not> is_max) of
             Inl e \<Rightarrow> Inl e
           | Inr ts \<Rightarrow>
               Inr (Node ((mm_TreeNode s (map_option Num v))\<lparr>depth := d, is_max_node := is_max\<rparr>) ts)))"
| "mm_build_children [] d is_max = Inr []"
| "mm_build_children (c # cs) d is_max =
     (case mm_build_subtree c d is_max of
        Inl e \<Rightarrow> Inl e
      | Inr t \<Rightarrow>
          (case mm_build_children cs d is_max of
             Inl e \<Rightarrow> Inl e
           | Inr ts \<Rightarrow> Inr (t # ts)))"

fun mm_build_tree :: "tree_data \<Rightarrow> error + mm_node option" where
  "mm_build_tree EmptyData = Inr None"
| "mm_build_tree MissingRoot = Inl KeyError"
| "mm_build_tree (RootData r) =
     (case mm_build_subtree r 0 True of Inl e \<Rightarrow> Inl e | Inr t \<Rightarrow> Inr (Some t))"

fun mm_minimax :: "bool \<Rightarrow> mm_node \<Rightarrow> pynum \<Rightarrow> pynum \<Rightarrow> error + (pynum option \<times> mm_node)"
  and mm_minimax_loop :: "bool \<Rightarrow> bool \<Rightarrow> pynum \<Rightarrow> pynum \<Rightarrow> pynum \<Rightarrow> nat option
      \<Rightarrow> mm_node list \<Rightarrow> mm_node list \<Rightarrow> error + (pynum \<times> nat option \<times> mm_node list)" where
  "mm_minimax pruning (Node f cs) a b =
     (let f' = f\<lparr>alpha := a, beta := b\<rparr> in
      if cs = [] then Inr (nvalue f', Node f' cs)
      else
        (case mm_minimax_loop pruning (is_max_node f') a b
                (if is_max_node f' then NegInf else PosInf) None [] cs of
           Inl e \<Rightarrow> Inl e
         | Inr (v, best_child, cs') \<Rightarrow> Inr (Some v, Node (f'\<lparr>nvalue := Some v\<rparr>) cs')))"
| "mm_minimax_loop pruning is_max a b v best_child done [] = Inr (v, best_child, done)"
| "mm_minimax_loop pruning is_max a b v best_child done (c # rest) =
     (if pruned (info c) then mm_minimax_loop pruning is_max a b v best_child (done @ [c]) rest
      else
        (case mm_minimax pruning c a b of
           Inl e \<Rightarrow> Inl e
         | Inr (child_value, c') \<Rightarrow>
             (case update_value is_max best_child child_value v of
                Inl e \<Rightarrow> Inl e
              | Inr upd \<Rightarrow>
                  (case (if upd then child_value else Some v) of
                     None \<Rightarrow> Inl TypeError
                   | Some v1 \<Rightarrow>
                       (let best1 = (if upd then Some (length done) else best_child);
                            a1 = (if is_max then max a v1 else a);
                            b1 = (if is_max then b else min b v1)
                        in if pruning \<and> b1 \<le> a1
                           then Inr (v1, best1, done @ [c'] @ map set_pruned rest)
                           else mm_minimax_loop pruning is_max a1 b1 v1 best1 (done @ [c']) rest)))))"

definition mm_run_minimax :: "bool \<Rightarrow> mm_node \<Rightarrow> error + (pynum option \<times> mm_node)" where
  "mm_run_minimax pruning rt = mm_minimax pruning rt NegInf PosInf"

subsection \<open>Monte Carlo tree search (\<^verbatim>\<open>visualizer_all.py\<close>)\<close>

text \<open>
  A node object is referred to by its position: the list of child indices that leads to it
  from the root. The parent of the node at \<open>p @ [i]\<close> is the node at \<open>p\<close>, and the root
  (the empty path) has the parent \<^verbatim>\<open>None\<close>, as \<^verbatim>\<open>add_child\<close> and \<^verbatim>\<open>build_tree\<close> set it.
\<close>

type_synonym path = "nat list"

fun node_at :: "'f tree \<Rightarrow> path \<Rightarrow> 'f tree option" where
  "node_at t [] = Some t"
| "node_at t (i # p) =
     (if i < length (children t) then node_at (children t ! i) p else None)"

fun update_at :: "('f \<Rightarrow> 'f) \<Rightarrow> path \<Rightarrow> 'f tree \<Rightarrow> 'f tree" where
  "update_at upd [] t = Node (upd (info t)) (children t)"
| "update_at upd (i # p) t =
     (if i < length (children t)
      then Node (info t) ((children t)[i := update_at upd p (children t ! i)])
      else t)"

fun parent_of :: "path \<Rightarrow> path option" where
  "parent_of [] = None"
| "parent_of p = Some (butlast p)"

text \<open>The random source is passed explicitly: an endless sequence of raw draws.
  \<^verbatim>\<open>random.choice(seq)\<close> raises \<^verbatim>\<open>IndexError\<close> on an empty sequence and otherwise
  returns the element at a drawn index below \<^verbatim>\<open>len(seq)\<close>; \<^verbatim>\<open>random.randint(0, 1)\<close>
  returns 0 or 1.\<close>

type_synonym rng = "nat \<Rightarrow> nat"

definition next_draw :: "rng \<Rightarrow> nat \<times> rng" where
  "next_draw g = (g 0, \<lambda>k. g (Suc k))"

definition random_choice :: "rng \<Rightarrow> 'a list \<Rightarrow> error + ('a \<times> rng)" where
  "random_choice g xs =
     (if xs = [] then Inl IndexError
      else (case next_draw g of (r, g') \<Rightarrow> Inr (xs ! (r mod length xs), g')))"

definition random_randint01 :: "rng \<Rightarrow> nat \<times> rng" where
  "random_randint01 g = (case next_draw g of (r, g') \<Rightarrow> (r mod 2, g'))"

text \<open>\<^verbatim>\<open>calculate_ucb\<close>. The first argument is \<^verbatim>\<open>node.parent\<close>. Python computes the
  score in floating point; here the quotient, the logarithm and the square root are the
  real ones. The exploitation term is finite, so the sum only meets a second summand that
  is finite or \<^verbatim>\<open>inf\<close>.\<close>

fun add_num :: "real \<Rightarrow> pynum \<Rightarrow> pynum" where
  "add_num x (Num y) = Num (x + y)"
| "add_num x PosInf = PosInf"
| "add_num x NegInf = NegInf"

definition calculate_ucb :: "treenode_all option \<Rightarrow> treenode_all \<Rightarrow> real \<Rightarrow> pynum" where
  "calculate_ucb parent n exploration_weight =
     (if visits n = 0 then PosInf
      else
        (let exploitation = real (wins n) / real (visits n);
             exploration =
               (case parent of
                  None \<Rightarrow> Num 0
                | Some p \<Rightarrow>
                    if visits p = 0 then PosInf
                    else Num (exploration_weight * sqrt (ln (real (visits p)) / real (visits n))))
         in add_num exploitation exploration))"

text \<open>\<^verbatim>\<open>get_best_child\<close>: the loop returns early with the index of the first child that has
  no visits, or ends with the list of the indices that share the best score.\<close>

fun best_children_loop :: "treenode_all \<Rightarrow> real \<Rightarrow> node list \<Rightarrow> nat \<Rightarrow> pynum \<Rightarrow> nat list
    \<Rightarrow> nat + nat list" where
  "best_children_loop par w [] i best_value best_children = Inr best_children"
| "best_children_loop par w (child # cs) i best_value best_children =
     (if visits (info child) = 0 then Inl i
      else
        (let ucb = calculate_ucb (Some par) (info child) w in
         if ucb > best_value then best_children_loop par w cs (i + 1) ucb [i]
         else if ucb = best_value
           then best_children_loop par w cs (i + 1) best_value (best_children @ [i])
           else best_children_loop par w cs (i + 1) best_value best_children))"

definition get_best_child :: "rng \<Rightarrow> node \<Rightarrow> real \<Rightarrow> error + (nat \<times> rng)" where
  "get_best_child g n exploration_weight =
     (case best_children_loop (info n) exploration_weight (children n) 0 NegInf [] of
        Inl i \<Rightarrow> Inr (i, g)
      | Inr best_children \<Rightarrow> random_choice g best_children)"

text \<open>\<^verbatim>\<open>mcts_selection\<close> returns the selected node with its position. The index test
  before the descent is always true (see \<open>get_best_child_index\<close>); it is what lets the
  recursion be accepted.\<close>

function mcts_selection :: "rng \<Rightarrow> node \<Rightarrow> real \<Rightarrow> error + (path \<times> node \<times> rng)" where
  "mcts_selection g current_node w =
     (if children current_node \<noteq> [] \<and> list_all (\<lambda>c. visits (info c) > 0) (children current_node)
      then
        (case get_best_child g current_node w of
           Inl e \<Rightarrow> Inl e
         | Inr (i, g') \<Rightarrow>
             if i < length (children current_node)
             then (case mcts_selection g' (children current_node ! i) w of
                     Inl e \<Rightarrow> Inl e
                   | Inr (p, n, g'') \<Rightarrow> Inr (i # p, n, g''))
             else Inl IndexError)
      else Inr ([], current_node, g))"
  by pat_completeness auto

lemma size_child_less: "i < length (children t) \<Longrightarrow> size (children t ! i) < size t"
proof (cases t)
  case (Node f cs)
  assume "i < length (children t)"
  with Node have "cs ! i \<in> set cs" by simp
  then have "size (cs ! i) \<le> size_list size cs"
    by (rule size_list_estimation') simp
  with Node show ?thesis by simp
qed

termination mcts_selection
  by (relation "measure (\<lambda>(g, n, w). size n)") (auto simp: size_child_less)

text \<open>\<^verbatim>\<open>mcts_expansion\<close> returns the index of the chosen unvisited child, or \<open>None\<close> when
  it returns the node itself.\<close>

definition mcts_expansion :: "rng \<Rightarrow> node \<Rightarrow> nat option \<times> rng" where
  "mcts_expansion g n =
     (let unvisited = filter (\<lambda>i. visits (info (children n ! i)) = 0) [0..<length (children n)]
      in if unvisited \<noteq> []
         then (case next_draw g of (r, g') \<Rightarrow> (Some (unvisited ! (r mod length unvisited)), g'))
         else (None, g))"

text \<open>Phase 2 of an iteration in \<^verbatim>\<open>run_mcts\<close>: the expansion routine is called only for
  a selected node that has visits and children.\<close>

definition expansion_phase :: "rng \<Rightarrow> node \<Rightarrow> nat option \<times> rng" where
  "expansion_phase g selected_node =
     (if visits (info selected_node) > 0 \<and> children selected_node \<noteq> []
      then mcts_expansion g selected_node
      else (None, g))"

function mcts_simulation :: "rng \<Rightarrow> node \<Rightarrow> pynum \<times> rng" where
  "mcts_simulation g current =
     (if children current \<noteq> []
      then (case next_draw g of
              (r, g') \<Rightarrow> mcts_simulation g' (children current ! (r mod length (children current))))
      else (case nvalue (info current) of
              Some v \<Rightarrow> (v, g)
            | None \<Rightarrow> (case random_randint01 g of (r, g') \<Rightarrow> (Num (real r), g'))))"
  by pat_completeness auto

termination mcts_simulation
  by (relation "measure (\<lambda>(g, n). size n)") (auto simp: size_child_less)

definition backprop_update :: "pynum \<Rightarrow> treenode_all \<Rightarrow> treenode_all" where
  "backprop_update result f =
     (let f1 = f\<lparr>visits := visits f + 1\<rparr>
      in if result = Num 1 then f1\<lparr>wins := wins f1 + 1\<rparr> else f1)"

text \<open>\<^verbatim>\<open>mcts_backpropagation\<close>: \<open>current\<close> is a node position or \<^verbatim>\<open>None\<close>.\<close>

function mcts_backpropagation :: "node \<Rightarrow> path option \<Rightarrow> pynum \<Rightarrow> node" where
  "mcts_backpropagation rt None result = rt"
| "mcts_backpropagation rt (Some p) result =
     mcts_backpropagation (update_at (backprop_update result) p rt) (parent_of p) result"
  by pat_completeness auto

termination mcts_backpropagation
  by (relation "measure (\<lambda>(rt, cur, r). case cur of None \<Rightarrow> 0 | Some p \<Rightarrow> Suc (length p))")
     (auto split: option.splits elim: parent_of.elims)

text \<open>\<^verbatim>\<open>get_node_by_id\<close>: the first node in pre-order that carries the id.\<close>

fun find_node :: "node \<Rightarrow> string \<Rightarrow> path option"
  and find_node_children :: "node list \<Rightarrow> nat \<Rightarrow> string \<Rightarrow> path option" where
  "find_node (Node f cs) target_id =
     (if node_id f = target_id then Some [] else find_node_children cs 0 target_id)"
| "find_node_children [] i target_id = None"
| "find_node_children (c # cs) i target_id =
     (case find_node c target_id of
        Some p \<Rightarrow> Some (i # p)
      | None \<Rightarrow> find_node_children cs (i + 1) target_id)"

definition get_node_by_id :: "node \<Rightarrow> string \<Rightarrow> path option" where
  "get_node_by_id rt target_id = find_node rt target_id"

fun node_ids :: "('z treenode_scheme) tree \<Rightarrow> string list" where
  "node_ids (Node f cs) = node_id f # concat (map node_ids cs)"

text \<open>The initialisation loop of \<^verbatim>\<open>run_mcts\<close> runs over the ids under which the nodes
  were registered for drawing and clears the node that \<^verbatim>\<open>get_node_by_id\<close> finds for each
  (an id met twice repeats the same assignments).\<close>

definition reset_node :: "string \<Rightarrow> node \<Rightarrow> node" where
  "reset_node i rt =
     (case get_node_by_id rt i of
        None \<Rightarrow> rt
      | Some p \<Rightarrow> update_at (\<lambda>f. f\<lparr>visits := 0, wins := 0\<rparr>) p rt)"

definition reset_statistics :: "node \<Rightarrow> node" where
  "reset_statistics rt = fold reset_node (node_ids rt) rt"

text \<open>One pass of the \<^verbatim>\<open>for iteration in range(1, iterations + 1)\<close> loop.\<close>

definition mcts_iteration :: "real \<Rightarrow> node \<times> rng \<Rightarrow> error + (node \<times> rng)" where
  "mcts_iteration w s =
     (case s of
        (rt, g) \<Rightarrow>
          (case mcts_selection g rt w of
             Inl e \<Rightarrow> Inl e
           | Inr (sel, selected_node, g1) \<Rightarrow>
               (case expansion_phase g1 selected_node of
                  (choice, g2) \<Rightarrow>
                    (let expanded = (case choice of None \<Rightarrow> sel | Some i \<Rightarrow> sel @ [i]);
                         expanded_node =
                           (case choice of None \<Rightarrow> selected_node
                            | Some i \<Rightarrow> children selected_node ! i)
                     in (case mcts_simulation g2 expanded_node of
                           (simulation_result, g3) \<Rightarrow>
                             Inr (mcts_backpropagation rt (Some expanded) simulation_result, g3))))))"

fun mcts_iterate :: "real \<Rightarrow> nat \<Rightarrow> node \<times> rng \<Rightarrow> error + (node \<times> rng)" where
  "mcts_iterate w 0 s = Inr s"
| "mcts_iterate w (Suc k) s =
     (case mcts_iteration w s of Inl e \<Rightarrow> Inl e | Inr s' \<Rightarrow> mcts_iterate w k s')"

text \<open>The two configuration entries \<^verbatim>\<open>run_mcts\<close> reads, each possibly absent.\<close>

record config =
  mcts_iterations :: "int option"
  exploration_weight :: "real option"

text \<open>\<^verbatim>\<open>run_mcts\<close> returns the id of the best root child, its win rate and the tree with
  the final statistics. \<^verbatim>\<open>range(1, iterations + 1)\<close> is empty for \<open>iterations < 1\<close>. The
  win rate \<^verbatim>\<open>best_child.wins/best_child.visits\<close> of the final report raises
  \<^verbatim>\<open>ZeroDivisionError\<close> for a child without visits.\<close>

definition run_mcts :: "config \<Rightarrow> rng \<Rightarrow> node \<Rightarrow> error + (string \<times> real \<times> node)" where
  "run_mcts cfg g rt =
     (let iterations = (case mcts_iterations cfg of None \<Rightarrow> 10 | Some n \<Rightarrow> n);
          w = (case exploration_weight cfg of None \<Rightarrow> 1.4 | Some x \<Rightarrow> x)
      in (case mcts_iterate w (nat iterations) (reset_statistics rt, g) of
            Inl e \<Rightarrow> Inl e
          | Inr (rt1, g1) \<Rightarrow>
              (case get_best_child g1 rt1 0 of
                 Inl e \<Rightarrow> Inl e
               | Inr (i, g2) \<Rightarrow>
                   (let best_child = info (children rt1 ! i)
                    in if visits best_child = 0 then Inl ZeroDivisionError
                       else Inr (node_id best_child,
                                 real (wins best_child) / real (visits best_child), rt1)))))"

section \<open>Notions of the specification\<close>

text \<open>The entries of a tree file in pre-order.\<close>

fun json_nodes :: "json_node \<Rightarrow> json_node list" where
  "json_nodes (JNode i v cs) = JNode i v cs # concat (map json_nodes cs)"

text \<open>What the specification calls a malformed tree: an id missing or duplicated, an
  entry with both children and a value, or an entry with neither.\<close>

definition spec_malformed :: "json_node \<Rightarrow> bool" where
  "spec_malformed r =
     (list_ex (\<lambda>n. jid n = None) (json_nodes r)
      \<or> \<not> distinct (map jid (json_nodes r))
      \<or> list_ex (\<lambda>n. jchildren n \<noteq> [] \<and> jvalue n \<noteq> None) (json_nodes r)
      \<or> list_ex (\<lambda>n. jchildren n = [] \<and> jvalue n = None) (json_nodes r))"

text \<open>Some entry of the tree lacks its \<^verbatim>\<open>"id"\<close>.\<close>

definition id_missing :: "json_node \<Rightarrow> bool" where
  "id_missing r = list_ex (\<lambda>n. jid n = None) (json_nodes r)"

section \<open>Example trees\<close>

text \<open>Small trees with given visit and win counts, for the concrete instances below.\<close>

definition mcts_leaf :: "string \<Rightarrow> real \<Rightarrow> nat \<Rightarrow> nat \<Rightarrow> node" where
  "mcts_leaf i x v w = Node ((TreeNode i (Some (Num x)))\<lparr>depth := 1, is_max_node := False,
     visits := v, wins := w\<rparr>) []"

definition mcts_root :: "nat \<Rightarrow> nat \<Rightarrow> node list \<Rightarrow> node" where
  "mcts_root v w cs = Node ((TreeNode ''r'' None)\<lparr>visits := v, wins := w\<rparr>) cs"

section \<open>Positions, statistics and shape\<close>

text \<open>The fields of the node at a position, the fields of all nodes in pre-order, the
  counter invariant of the Monte Carlo search, and the tree without its fields.\<close>

definition fields_at :: "'f tree \<Rightarrow> path \<Rightarrow> 'f option" where
  "fields_at t p = map_option info (node_at t p)"

fun all_fields :: "'f tree \<Rightarrow> 'f list" where
  "all_fields (Node f cs) = f # concat (map all_fields cs)"

definition counters_ok :: "node \<Rightarrow> bool" where
  "counters_ok t = list_all (\<lambda>f. wins f \<le> visits f) (all_fields t)"

fun shape :: "'f tree \<Rightarrow> unit tree" where
  "shape (Node f cs) = Node () (map shape cs)"

section \<open>Notions for the minimax claims\<close>

text \<open>Forgetting the two counters turns a node of \<^verbatim>\<open>visualizer_all.py\<close> into a node of
  \<^verbatim>\<open>visualizer_minimax.py\<close>.\<close>

definition erase_fields :: "treenode_all \<Rightarrow> treenode" where
  "erase_fields f = \<lparr>node_id = node_id f, nvalue = nvalue f, depth = depth f,
     is_max_node = is_max_node f, alpha = alpha f, beta = beta f, pruned = pruned f\<rparr>"

fun erase :: "node \<Rightarrow> mm_node" where
  "erase (Node f cs) = Node (erase_fields f) (map erase cs)"

text \<open>The pruned edges, as the pairs of parent id and child id under which the code greys
  them out.\<close>

fun pruned_edges :: "('z treenode_scheme) tree \<Rightarrow> (string \<times> string) list" where
  "pruned_edges (Node f cs) =
     map (\<lambda>c. (node_id f, node_id (info c))) (filter (\<lambda>c. pruned (info c)) cs)
     @ concat (map pruned_edges cs)"

text \<open>A tree as the builder delivers it from a well-formed tree file: no child is marked
  pruned and every childless node carries a number.\<close>

fun is_number :: "pynum option \<Rightarrow> bool" where
  "is_number (Some (Num x)) = True"
| "is_number _ = False"

fun well_formed :: "('z treenode_scheme) tree \<Rightarrow> bool" where
  "well_formed (Node f cs) =
     (if cs = [] then is_number (nvalue f)
      else list_all (\<lambda>c. \<not> pruned (info c) \<and> well_formed c) cs)"

text \<open>The frame of a run, comparing the tree before with the tree after: a child that the
  run marked pruned is the child as it was, with nothing but the mark set; below every
  other child the same holds again.\<close>

fun frame :: "node \<Rightarrow> node \<Rightarrow> bool"
  and frame_list :: "node list \<Rightarrow> node list \<Rightarrow> bool" where
  "frame (Node f cs) (Node f' cs') = frame_list cs cs'"
| "frame_list [] [] = True"
| "frame_list (c # cs) (c' # cs') =
     ((if pruned (info c') \<and> \<not> pruned (info c) then c' = set_pruned c else frame c c')
      \<and> frame_list cs cs')"
| "frame_list [] (c' # cs') = False"
| "frame_list (c # cs) [] = False"

text \<open>The evaluation contract in the words of the specification (section 4.2): a leaf
  returns its static value; an inner node starts from \<open>-infinity\<close> (MAX) or \<open>+infinity\<close>
  (MIN), takes a child's value, and the child as best edge, only when it is strictly
  better, then widens \<open>alpha\<close> (or lowers \<open>beta\<close>), cuts off on \<open>beta \<le> alpha\<close> when pruning
  is enabled, and stores the value on exit. The bounds in effect on entry are recorded on
  the node (section 3). A child without a value, which a well-formed tree does not have,
  changes nothing.\<close>

fun spec_evaluate :: "bool \<Rightarrow> node \<Rightarrow> pynum \<Rightarrow> pynum \<Rightarrow> pynum option \<times> node"
  and spec_children :: "bool \<Rightarrow> bool \<Rightarrow> pynum \<Rightarrow> pynum \<Rightarrow> pynum \<Rightarrow> nat option
      \<Rightarrow> node list \<Rightarrow> node list \<Rightarrow> pynum \<times> nat option \<times> node list" where
  "spec_evaluate pruning (Node f cs) a b =
     (let f' = f\<lparr>alpha := a, beta := b\<rparr> in
      if cs = [] then (nvalue f', Node f' cs)
      else
        (case spec_children pruning (is_max_node f') a b
                (if is_max_node f' then NegInf else PosInf) None [] cs of
           (v, best_edge, cs') \<Rightarrow> (Some v, Node (f'\<lparr>nvalue := Some v\<rparr>) cs')))"
| "spec_children pruning is_max a b v best_edge done [] = (v, best_edge, done)"
| "spec_children pruning is_max a b v best_edge done (c # rest) =
     (if pruned (info c) then spec_children pruning is_max a b v best_edge (done @ [c]) rest
      else
        (case spec_evaluate pruning c a b of
           (child_value, c') \<Rightarrow>
             (let better = (case child_value of
                              None \<Rightarrow> False
                            | Some x \<Rightarrow> if is_max then x > v else x < v);
                  v1 = (case child_value of
                          None \<Rightarrow> v
                        | Some x \<Rightarrow> if better then x else v);
                  best1 = (if better then Some (length done) else best_edge);
                  a1 = (if is_max then max a v1 else a);
                  b1 = (if is_max then b else min b v1)
              in if pruning \<and> b1 \<le> a1
                 then (v1, best1, done @ [c'] @ map set_pruned rest)
                 else spec_children pruning is_max a1 b1 v1 best1 (done @ [c']) rest)))"

text \<open>The plain minimax value of a tree: the value of a leaf, the greatest child value at a
  MAX node, the least at a MIN node.\<close>

fun minimax_value :: "('z treenode_scheme) tree \<Rightarrow> pynum"
  and max_value :: "('z treenode_scheme) tree list \<Rightarrow> pynum"
  and min_value :: "('z treenode_scheme) tree list \<Rightarrow> pynum" where
  "minimax_value (Node f cs) =
     (if cs = [] then (case nvalue f of Some v \<Rightarrow> v | None \<Rightarrow> NegInf)
      else if is_max_node f then max_value cs else min_value cs)"
| "max_value [] = NegInf"
| "max_value (c # cs) = max (minimax_value c) (max_value cs)"
| "min_value [] = PosInf"
| "min_value (c # cs) = min (minimax_value c) (min_value cs)"

text \<open>The example of the specification: a MAX root over the MIN nodes \<open>A\<close> with the leaves
  3 and 5 and \<open>B\<close> with the leaves 2 and 9.\<close>

definition example_data :: tree_data where
  "example_data = RootData (JNode (Some ''root'') None
     [JNode (Some ''A'') None [JNode (Some ''A1'') (Some 3) [], JNode (Some ''A2'') (Some 5) []],
      JNode (Some ''B'') None [JNode (Some ''B1'') (Some 2) [], JNode (Some ''B2'') (Some 9) []]])"

definition fresh_node :: "string \<Rightarrow> pynum option \<Rightarrow> nat \<Rightarrow> bool \<Rightarrow> node list \<Rightarrow> node" where
  "fresh_node i v d is_max cs = Node ((TreeNode i v)\<lparr>depth := d, is_max_node := is_max\<rparr>) cs"

definition example_tree :: node where
  "example_tree = fresh_node ''root'' None 0 True
     [fresh_node ''A'' None 1 False
        [fresh_node ''A1'' (Some (Num 3)) 2 True [], fresh_node ''A2'' (Some (Num 5)) 2 True []],
      fresh_node ''B'' None 1 False
        [fresh_node ''B1'' (Some (Num 2)) 2 True [], fresh_node ''B2'' (Some (Num 9)) 2 True []]]"

text \<open>Results of the two files are compared after forgetting the counters.\<close>

fun erase_result :: "error + (pynum option \<times> node) \<Rightarrow> error + (pynum option \<times> mm_node)" where
  "erase_result (Inl e) = Inl e"
| "erase_result (Inr (v, t)) = Inr (v, erase t)"

fun erase_loop_result :: "error + (pynum \<times> nat option \<times> node list)
    \<Rightarrow> error + (pynum \<times> nat option \<times> mm_node list)" where
  "erase_loop_result (Inl e) = Inl e"
| "erase_loop_result (Inr (v, best_child, cs)) = Inr (v, best_child, map erase cs)"

text \<open>The example tree after a run with pruning enabled.\<close>

definition example_result :: node where
  "example_result =
     Node ((TreeNode ''root'' None)\<lparr>nvalue := Some (Num 3)\<rparr>)
       [Node ((TreeNode ''A'' None)\<lparr>depth := 1, is_max_node := False, nvalue := Some (Num 3)\<rparr>)
          [Node ((TreeNode ''A1'' (Some (Num 3)))\<lparr>depth := 2\<rparr>) [],
           Node ((TreeNode ''A2'' (Some (Num 5)))\<lparr>depth := 2, beta := Num 3\<rparr>) []],
        Node ((TreeNode ''B'' None)\<lparr>depth := 1, is_max_node := False, nvalue := Some (Num 2),
                alpha := Num 3\<rparr>)
          [Node ((TreeNode ''B1'' (Some (Num 2)))\<lparr>depth := 2, alpha := Num 3\<rparr>) [],
           Node ((TreeNode ''B2'' (Some (Num 9)))\<lparr>depth := 2, pruned := True\<rparr>) []]]"

text \<open>The example tree after a run with pruning disabled.\<close>

definition example_plain_result :: node where
  "example_plain_result =
     Node ((TreeNode ''root'' None)\<lparr>nvalue := Some (Num 3)\<rparr>)
       [Node ((TreeNode ''A'' None)\<lparr>depth := 1, is_max_node := False, nvalue := Some (Num 3)\<rparr>)
          [Node ((TreeNode ''A1'' (Some (Num 3)))\<lparr>depth := 2\<rparr>) [],
           Node ((TreeNode ''A2'' (Some (Num 5)))\<lparr>depth := 2, beta := Num 3\<rparr>) []],
        Node ((TreeNode ''B'' None)\<lparr>depth := 1, is_max_node := False, nvalue := Some (Num 2),
                alpha := Num 3\<rparr>)
          [Node ((TreeNode ''B1'' (Some (Num 2)))\<lparr>depth := 2, alpha := Num 3\<rparr>) [],
           Node ((TreeNode ''B2'' (Some (Num 9)))\<lparr>depth := 2, alpha := Num 3, beta := Num 2\<rparr>) []]]"

text \<open>The value a node's loop starts from.\<close>

definition start_value :: "bool \<Rightarrow> pynum" where
  "start_value is_max = (if is_max then NegInf else PosInf)"

text \<open>How a value \<open>w\<close> returned for the window from \<open>a\<close> to \<open>b\<close> relates to the plain
  minimax value \<open>m\<close>: exact inside the window, a bound for \<open>m\<close> outside it.\<close>

definition bracket :: "'a::linorder \<Rightarrow> 'a \<Rightarrow> 'a \<Rightarrow> 'a \<Rightarrow> bool" where
  "bracket a b w m = ((w \<le> a \<longrightarrow> m \<le> w) \<and> (a < w \<and> w < b \<longrightarrow> w = m) \<and> (b \<le> w \<longrightarrow> w \<le> m))"

section \<open>Notions for the Monte Carlo claims\<close>

text \<open>The list \<^verbatim>\<open>unvisited\<close> that \<^verbatim>\<open>mcts_expansion\<close> builds: the indices of the children
  without visits, in order.\<close>

definition unvisited_children :: "node \<Rightarrow> nat list" where
  "unvisited_children n =
     filter (\<lambda>i. visits (info (children n ! i)) = 0) [0..<length (children n)]"

text \<open>The indices of the children whose score is maximal among all children, in order.\<close>

definition best_indices :: "node \<Rightarrow> real \<Rightarrow> nat list" where
  "best_indices n w =
     filter (\<lambda>j. list_all (\<lambda>c. calculate_ucb (Some (info n)) (info c) w
                              \<le> calculate_ucb (Some (info n)) (info (children n ! j)) w)
                  (children n))
       [0..<length (children n)]"

text \<open>The end of \<^verbatim>\<open>run_mcts\<close> after the loop: the best root child for the exploration
  weight 0 and the report of its id and win rate.\<close>

definition final_report :: "rng \<Rightarrow> node \<Rightarrow> error + (string \<times> real \<times> node)" where
  "final_report g1 rt1 =
     (case get_best_child g1 rt1 0 of
        Inl e \<Rightarrow> Inl e
      | Inr (i, g2) \<Rightarrow>
          (let best_child = info (children rt1 ! i)
           in if visits best_child = 0 then Inl ZeroDivisionError
              else Inr (node_id best_child,
                        real (wins best_child) / real (visits best_child), rt1)))"

section \<open>Tree construction\<close>

lemma build_subtree_isl:
  "isl (build_subtree j d m) = list_ex (\<lambda>n. jid n = None) (json_nodes j)"
  "isl (build_children js d m) = list_ex (\<lambda>n. jid n = None) (concat (map json_nodes js))"
  by (induction j d m and js d m rule: build_subtree_build_children.induct)
     (auto split: option.splits sum.splits)

lemma build_subtree_error:
  "build_subtree j d m = Inl e \<Longrightarrow> e = KeyError"
  "build_children js d m = Inl e \<Longrightarrow> e = KeyError"
  by (induction j d m and js d m rule: build_subtree_build_children.induct)
     (auto split: option.splits sum.splits)

lemma build_tree_isl: "isl (build_tree (RootData r)) = id_missing r"
proof -
  have "isl (build_tree (RootData r)) = isl (build_subtree r 0 True)"
    by (simp split: sum.splits)
  then show ?thesis by (simp add: build_subtree_isl id_missing_def)
qed

lemma build_tree_error: "build_tree td = Inl e \<Longrightarrow> e = KeyError"
  by (cases td) (auto dest: build_subtree_error split: sum.splits)

lemma minimax_error:
  "minimax pr t a b = Inl e \<Longrightarrow> e = TypeError"
  "minimax_loop pr mx a b v best dn cs = Inl e \<Longrightarrow> e = TypeError"
  by (induction pr t a b and pr mx a b v best dn cs rule: minimax_minimax_loop.induct)
     (auto split: option.splits sum.splits if_splits prod.splits simp: update_value_def Let_def)

section \<open>The best-child routine\<close>


lemma pynum_less_simps [simp]:
  "NegInf < Num x" "NegInf < PosInf" "Num x < PosInf" "(Num x < Num y) = (x < y)"
  "\<not> v < NegInf" "\<not> PosInf < v" "\<not> Num x < NegInf" "v \<le> PosInf"
  by (cases v; auto simp: less_pynum_def)+

lemma pynum_neq_NegInf: "(v \<noteq> NegInf) = (NegInf < v)"
  by (cases v) auto

lemma calculate_ucb_gt_NegInf: "NegInf < calculate_ucb par f w"
  by (cases par) (auto simp: calculate_ucb_def Let_def)

text \<open>The loop of get_best_child, started at index i with the children before it already passed.\<close>

lemma best_children_loop_unvisited:
  "list_ex (\<lambda>c. visits (info c) = 0) cs \<Longrightarrow>
   best_children_loop par w cs i bv bc =
     Inl (i + length (takeWhile (\<lambda>c. visits (info c) \<noteq> 0) cs))"
  by (induction cs arbitrary: i bv bc) (auto simp: Let_def)

lemma best_children_loop_visited:
  assumes "list_all (\<lambda>c. visits (info c) > 0) cs"
    and "i = length pre"
    and "\<forall>j \<in> set bc. j < i \<and> calculate_ucb (Some par) (info (pre ! j)) w = bv"
    and "\<forall>j < i. calculate_ucb (Some par) (info (pre ! j)) w \<le> bv"
    and "bc = [] \<longrightarrow> bv = NegInf"
  shows "\<exists>bc' bv'. best_children_loop par w cs i bv bc = Inr bc'
     \<and> (\<forall>j \<in> set bc'. j < length (pre @ cs)
            \<and> calculate_ucb (Some par) (info ((pre @ cs) ! j)) w = bv')
     \<and> (\<forall>j < length (pre @ cs). calculate_ucb (Some par) (info ((pre @ cs) ! j)) w \<le> bv')
     \<and> (bc' = [] \<longrightarrow> bv' = NegInf \<and> cs = [] \<and> bc = [])"
  using assms
proof (induction cs arbitrary: i bv bc pre)
  case Nil
  then show ?case by auto
next
  case (Cons c cs)
  let ?u = "calculate_ucb (Some par) (info c) w"
  have vis: "visits (info c) \<noteq> 0" and rest: "list_all (\<lambda>c. visits (info c) > 0) cs"
    using Cons.prems(1) by auto
  have len: "Suc i = length (pre @ [c])" using Cons.prems(2) by simp
  have nth_pre: "\<And>j. j < i \<Longrightarrow> (pre @ [c]) ! j = pre ! j"
    using Cons.prems(2) by (simp add: nth_append)
  have nth_i: "(pre @ [c]) ! i = c" using Cons.prems(2) by simp
  consider (gt) "?u > bv" | (eq) "?u = bv" | (lt) "?u < bv"
    by (metis linorder_less_linear)
  then show ?case
  proof cases
    case gt
    have a: "\<forall>j \<in> set [i]. j < Suc i \<and> calculate_ucb (Some par) (info ((pre @ [c]) ! j)) w = ?u"
      using nth_i by simp
    have b: "\<forall>j < Suc i. calculate_ucb (Some par) (info ((pre @ [c]) ! j)) w \<le> ?u"
    proof (intro allI impI)
      fix j assume "j < Suc i"
      then show "calculate_ucb (Some par) (info ((pre @ [c]) ! j)) w \<le> ?u"
        using Cons.prems(4) gt nth_pre nth_i by (cases "j = i") (auto simp: less_Suc_eq)
    qed
    have c: "[i] = [] \<longrightarrow> ?u = NegInf" by simp
    from Cons.IH [OF rest len a b c]
    show ?thesis using vis gt by (auto simp: Let_def)
  next
    case eq
    have a: "\<forall>j \<in> set (bc @ [i]). j < Suc i \<and> calculate_ucb (Some par) (info ((pre @ [c]) ! j)) w = bv"
      using Cons.prems(3) nth_pre nth_i eq by (auto simp: less_Suc_eq)
    have b: "\<forall>j < Suc i. calculate_ucb (Some par) (info ((pre @ [c]) ! j)) w \<le> bv"
    proof (intro allI impI)
      fix j assume "j < Suc i"
      then show "calculate_ucb (Some par) (info ((pre @ [c]) ! j)) w \<le> bv"
        using Cons.prems(4) eq nth_pre nth_i by (cases "j = i") (auto simp: less_Suc_eq)
    qed
    have c: "bc @ [i] = [] \<longrightarrow> bv = NegInf" by simp
    from Cons.IH [OF rest len a b c]
    show ?thesis using vis eq by (auto simp: Let_def)
  next
    case lt
    have ne: "bc \<noteq> []"
      using Cons.prems(5) lt by auto
    have a: "\<forall>j \<in> set bc. j < Suc i \<and> calculate_ucb (Some par) (info ((pre @ [c]) ! j)) w = bv"
      using Cons.prems(3) nth_pre by (auto simp: less_Suc_eq)
    have b: "\<forall>j < Suc i. calculate_ucb (Some par) (info ((pre @ [c]) ! j)) w \<le> bv"
    proof (intro allI impI)
      fix j assume "j < Suc i"
      then show "calculate_ucb (Some par) (info ((pre @ [c]) ! j)) w \<le> bv"
        using Cons.prems(4) lt nth_pre nth_i by (cases "j = i") (auto simp: less_Suc_eq)
    qed
    have c: "bc = [] \<longrightarrow> bv = NegInf" using ne by simp
    from Cons.IH [OF rest len a b c]
    show ?thesis using vis lt ne by (auto simp: Let_def)
  qed
qed


lemma takeWhile_stops:
  "list_ex (\<lambda>c. \<not> P c) cs \<Longrightarrow>
   length (takeWhile P cs) < length cs \<and> \<not> P (cs ! length (takeWhile P cs))
   \<and> (\<forall>j < length (takeWhile P cs). P (cs ! j))"
  by (induction cs) (auto simp: nth_Cons split: nat.splits)

lemma get_best_child_unvisited:
  assumes "list_ex (\<lambda>c. visits (info c) = 0) (children n)"
  shows "get_best_child g n w =
     Inr (length (takeWhile (\<lambda>c. visits (info c) \<noteq> 0) (children n)), g)"
  using best_children_loop_unvisited [OF assms, of "info n" w 0 NegInf "[]"]
  by (simp add: get_best_child_def)

lemma get_best_child_visited:
  assumes "children n \<noteq> []" and "list_all (\<lambda>c. visits (info c) > 0) (children n)"
  shows "\<exists>i g'. get_best_child g n w = Inr (i, g') \<and> i < length (children n)
     \<and> (\<forall>j < length (children n).
           calculate_ucb (Some (info n)) (info (children n ! j)) w
           \<le> calculate_ucb (Some (info n)) (info (children n ! i)) w)"
proof -
  from best_children_loop_visited [OF assms(2), of 0 "[]" "[]" "info n" w NegInf]
  obtain bc' bv' where
    l: "best_children_loop (info n) w (children n) 0 NegInf [] = Inr bc'"
    and m: "\<forall>j \<in> set bc'. j < length (children n)
              \<and> calculate_ucb (Some (info n)) (info (children n ! j)) w = bv'"
    and u: "\<forall>j < length (children n).
              calculate_ucb (Some (info n)) (info (children n ! j)) w \<le> bv'"
    and ne: "bc' = [] \<longrightarrow> children n = []"
    by auto
  from ne assms(1) have ne': "bc' \<noteq> []" by auto
  obtain r g' where d: "next_draw g = (r, g')" by (cases "next_draw g")
  let ?i = "bc' ! (r mod length bc')"
  have "?i \<in> set bc'" using ne' by simp
  with m u l d ne' show ?thesis
    by (auto simp: get_best_child_def random_choice_def)
qed

section \<open>Monte Carlo tree search\<close>

declare mcts_selection.simps [simp del] mcts_simulation.simps [simp del]
  mcts_backpropagation.simps [simp del]

lemma fields_at_Nil [simp]: "fields_at t [] = Some (info t)"
  by (simp add: fields_at_def)

lemma fields_at_Cons:
  "fields_at t (i # p) = (if i < length (children t) then fields_at (children t ! i) p else None)"
  by (simp add: fields_at_def)

lemma fields_at_update_at:
  "fields_at (update_at u p t) q = (if q = p then map_option u (fields_at t q) else fields_at t q)"
proof (induction p arbitrary: t q)
  case Nil
  show ?case by (cases q) (auto simp: fields_at_Cons)
next
  case (Cons i p)
  show ?case
  proof (cases q)
    case Nil
    then show ?thesis by simp
  next
    case (Cons j q')
    then show ?thesis
      using Cons.IH by (auto simp: fields_at_Cons nth_list_update)
  qed
qed

lemma shape_update_at: "shape (update_at u p t) = shape t"
proof (induction p arbitrary: t)
  case Nil
  show ?case by (cases t) simp
next
  case (Cons i p)
  show ?case
  proof (cases t)
    case (Node f cs)
    have "map shape (cs[i := update_at u p (cs ! i)]) = map shape cs" if "i < length cs"
      using that Cons.IH [of "cs ! i"] by (simp add: map_update list_update_same_conv)
    then show ?thesis using Node by auto
  qed
qed

lemma parent_of_snoc [simp]: "parent_of (p @ [i]) = Some p"
  by (cases p) (simp_all add: butlast_append)

lemma fields_at_backpropagation:
  "fields_at (mcts_backpropagation t cur r) q =
     (case cur of
        None \<Rightarrow> fields_at t q
      | Some p \<Rightarrow> if prefix q p then map_option (backprop_update r) (fields_at t q)
                  else fields_at t q)"
proof (induction t cur r arbitrary: q rule: mcts_backpropagation.induct)
  case (1 rt result)
  show ?case by (simp add: mcts_backpropagation.simps)
next
  case (2 rt p result)
  show ?case
  proof (cases p rule: rev_cases)
    case Nil
    then show ?thesis using 2 [of q]
      by (simp add: fields_at_update_at mcts_backpropagation.simps del: update_at.simps)
  next
    case (snoc p' i)
    then have par: "parent_of p = Some p'" by simp
    have ne: "\<not> (q = p' @ [i] \<and> prefix q p')" by (auto simp: prefix_def)
    show ?thesis using 2 [of q] par snoc ne
      by (auto simp: fields_at_update_at mcts_backpropagation.simps simp del: update_at.simps)
  qed
qed

lemma shape_backpropagation: "shape (mcts_backpropagation t cur r) = shape t"
  by (induction t cur r rule: mcts_backpropagation.induct) (simp_all add: shape_update_at mcts_backpropagation.simps del: update_at.simps)


lemma all_fields_child:
  "i < length (children t) \<Longrightarrow> set (all_fields (children t ! i)) \<subseteq> set (all_fields t)"
proof (cases t)
  case (Node f cs)
  assume "i < length (children t)"
  with Node have "cs ! i \<in> set cs" by simp
  with Node show ?thesis by auto
qed

lemma fields_at_in_all_fields: "fields_at t q = Some f \<Longrightarrow> f \<in> set (all_fields t)"
proof (induction q arbitrary: t)
  case Nil
  then show ?case by (cases t) simp
next
  case (Cons i q)
  then have lt: "i < length (children t)" and "fields_at (children t ! i) q = Some f"
    by (auto simp: fields_at_Cons split: if_splits)
  with Cons.IH have "f \<in> set (all_fields (children t ! i))" by blast
  with all_fields_child [OF lt] show ?case by blast
qed

lemma all_fields_fields_at: "f \<in> set (all_fields t) \<Longrightarrow> \<exists>q. fields_at t q = Some f"
proof (induction t)
  case (Node g cs)
  show ?case
  proof (cases "f = g")
    case True
    then have "fields_at (Node g cs) [] = Some f" by simp
    then show ?thesis by blast
  next
    case False
    with Node.prems obtain c where c: "c \<in> set cs" "f \<in> set (all_fields c)" by auto
    from Node.IH [OF c] obtain q where q: "fields_at c q = Some f" by blast
    from c(1) obtain i where i: "i < length cs" "cs ! i = c" by (auto simp: in_set_conv_nth)
    with q have "fields_at (Node g cs) (i # q) = Some f" by (simp add: fields_at_Cons)
    then show ?thesis by blast
  qed
qed

lemma counters_ok_iff:
  "counters_ok t = (\<forall>q f. fields_at t q = Some f \<longrightarrow> wins f \<le> visits f)"
proof
  assume ok: "counters_ok t"
  show "\<forall>q f. fields_at t q = Some f \<longrightarrow> wins f \<le> visits f"
  proof (intro allI impI)
    fix q f assume "fields_at t q = Some f"
    then have "f \<in> set (all_fields t)" by (rule fields_at_in_all_fields)
    with ok show "wins f \<le> visits f" by (simp add: counters_ok_def list_all_iff)
  qed
next
  assume a: "\<forall>q f. fields_at t q = Some f \<longrightarrow> wins f \<le> visits f"
  have "wins f \<le> visits f" if "f \<in> set (all_fields t)" for f
    using all_fields_fields_at [OF that] a by blast
  then show "counters_ok t" by (simp add: counters_ok_def list_all_iff)
qed

lemma backprop_update_counters:
  "visits (backprop_update r f) = visits f + 1"
  "wins (backprop_update r f) = wins f + (if r = Num 1 then 1 else 0)"
  by (simp_all add: backprop_update_def Let_def)

lemma counters_ok_backpropagation:
  assumes "counters_ok t"
  shows "counters_ok (mcts_backpropagation t cur r)"
  unfolding counters_ok_iff
proof (intro allI impI)
  fix q f assume a: "fields_at (mcts_backpropagation t cur r) q = Some f"
  then consider (same) "fields_at t q = Some f"
    | (upd) f0 where "fields_at t q = Some f0" "f = backprop_update r f0"
    by (auto simp: fields_at_backpropagation split: option.splits if_splits)
  then show "wins f \<le> visits f"
  proof cases
    case same
    with assms show ?thesis by (auto simp: counters_ok_iff)
  next
    case upd
    with assms have "wins f0 \<le> visits f0" by (auto simp: counters_ok_iff)
    with upd show ?thesis by (simp add: backprop_update_counters)
  qed
qed

lemma get_best_child_index:
  assumes "get_best_child g n w = Inr (i, g')" and "children n \<noteq> []"
  shows "i < length (children n)"
proof (cases "list_ex (\<lambda>c. visits (info c) = 0) (children n)")
  case True
  from takeWhile_stops [of "\<lambda>c. visits (info c) \<noteq> 0" "children n"] True
  have "length (takeWhile (\<lambda>c. visits (info c) \<noteq> 0) (children n)) < length (children n)"
    by simp
  with get_best_child_unvisited [OF True, of g w] assms show ?thesis by simp
next
  case False
  then have "list_all (\<lambda>c. visits (info c) > 0) (children n)"
    by (auto simp: list_all_iff list_ex_iff)
  from get_best_child_visited [OF assms(2) this, of g w] assms(1) show ?thesis by auto
qed

lemma mcts_selection_total:
  "\<exists>p n g'. mcts_selection g t w = Inr (p, n, g') \<and> node_at t p = Some n"
proof (induction g t w rule: mcts_selection.induct)
  case (1 g cur w)
  show ?case
  proof (cases "children cur \<noteq> [] \<and> list_all (\<lambda>c. visits (info c) > 0) (children cur)")
    case False
    then show ?thesis by (subst mcts_selection.simps) auto
  next
    case True
    then have ne: "children cur \<noteq> []" and av: "list_all (\<lambda>c. visits (info c) > 0) (children cur)"
      by auto
    from get_best_child_visited [OF ne av, of g w] obtain i g1 where
      b: "get_best_child g cur w = Inr (i, g1)" "i < length (children cur)" by blast
    from 1 [OF True b(1) refl b(2)] obtain p n g2 where
      r: "mcts_selection g1 (children cur ! i) w = Inr (p, n, g2)"
         "node_at (children cur ! i) p = Some n" by blast
    have "mcts_selection g cur w = Inr (i # p, n, g2)"
      using True b r by (subst mcts_selection.simps) simp
    with r(2) b(2) show ?thesis by simp
  qed
qed

lemma mcts_expansion_index:
  "mcts_expansion g n = (Some i, g') \<Longrightarrow>
     i < length (children n) \<and> visits (info (children n ! i)) = 0"
proof -
  let ?u = "filter (\<lambda>i. visits (info (children n ! i)) = 0) [0..<length (children n)]"
  assume a: "mcts_expansion g n = (Some i, g')"
  then have ne: "?u \<noteq> []" by (auto simp: mcts_expansion_def Let_def split: if_splits)
  obtain r g1 where d: "next_draw g = (r, g1)" by (cases "next_draw g")
  from a ne d have "i = ?u ! (r mod length ?u)"
    by (auto simp: mcts_expansion_def Let_def)
  moreover have "?u ! (r mod length ?u) \<in> set ?u"
    by (rule nth_mem) (use ne in simp)
  ultimately have "i \<in> set ?u" by simp
  then show ?thesis by auto
qed

lemma node_at_append:
  "node_at t p = Some n \<Longrightarrow> node_at t (p @ q) = node_at n q"
  by (induction p arbitrary: t) (auto split: if_splits)

text \<open>What one iteration does to the tree.\<close>

lemma mcts_iteration_effect:
  "\<exists>t' g' p r. mcts_iteration w (t, g) = Inr (t', g') \<and> node_at t p \<noteq> None
     \<and> t' = mcts_backpropagation t (Some p) r"
proof -
  obtain sel sn g1 where s: "mcts_selection g t w = Inr (sel, sn, g1)" "node_at t sel = Some sn"
    using mcts_selection_total by blast
  obtain ch g2 where e: "expansion_phase g1 sn = (ch, g2)" by (cases "expansion_phase g1 sn")
  show ?thesis
  proof (cases ch)
    case None
    obtain r g3 where "mcts_simulation g2 sn = (r, g3)" by (cases "mcts_simulation g2 sn")
    with s e None have "mcts_iteration w (t, g) = Inr (mcts_backpropagation t (Some sel) r, g3)"
      by (simp add: mcts_iteration_def)
    with s(2) show ?thesis by auto
  next
    case (Some i)
    with e have "mcts_expansion g1 sn = (Some i, g2)"
      by (auto simp: expansion_phase_def split: if_splits)
    from mcts_expansion_index [OF this] have lt: "i < length (children sn)" by simp
    obtain r g3 where "mcts_simulation g2 (children sn ! i) = (r, g3)"
      by (cases "mcts_simulation g2 (children sn ! i)")
    with s e Some
    have it: "mcts_iteration w (t, g) = Inr (mcts_backpropagation t (Some (sel @ [i])) r, g3)"
      by (simp add: mcts_iteration_def)
    have "node_at t (sel @ [i]) = Some (children sn ! i)"
      using node_at_append [OF s(2), of "[i]"] lt by simp
    with it show ?thesis by auto
  qed
qed

lemma mcts_iterate_counters_ok:
  "counters_ok t \<Longrightarrow>
   \<exists>t' g'. mcts_iterate w k (t, g) = Inr (t', g') \<and> counters_ok t' \<and> shape t' = shape t"
proof (induction k arbitrary: t g)
  case 0
  then show ?case by simp
next
  case (Suc k)
  from mcts_iteration_effect [of w t g] obtain t1 g1 p r where
    i: "mcts_iteration w (t, g) = Inr (t1, g1)" "t1 = mcts_backpropagation t (Some p) r"
    by blast
  from i(2) Suc.prems have ok: "counters_ok t1" by (simp add: counters_ok_backpropagation)
  from i(2) have sh: "shape t1 = shape t" by (simp add: shape_backpropagation)
  from Suc.IH [OF ok, of g1] i(1) sh show ?case by auto
qed

lemma mcts_iterate_total: "\<exists>t' g'. mcts_iterate w k (t, g) = Inr (t', g') \<and> shape t' = shape t"
proof (induction k arbitrary: t g)
  case 0
  show ?case by simp
next
  case (Suc k)
  from mcts_iteration_effect [of w t g] obtain t1 g1 p r where
    i: "mcts_iteration w (t, g) = Inr (t1, g1)" "t1 = mcts_backpropagation t (Some p) r"
    by blast
  from i(2) have sh: "shape t1 = shape t" by (simp add: shape_backpropagation)
  from Suc.IH [of t1 g1] i(1) sh show ?case by auto
qed

lemma update_at_unchanged:
  "\<forall>f \<in> set (all_fields t). u f = f \<Longrightarrow> update_at u p t = t"
proof (induction p arbitrary: t)
  case Nil
  then show ?case by (cases t) simp
next
  case (Cons i p)
  show ?case
  proof (cases "i < length (children t)")
    case True
    from all_fields_child [OF True] Cons.prems
    have "\<forall>f \<in> set (all_fields (children t ! i)). u f = f" by blast
    from Cons.IH [OF this] True show ?thesis by (cases t) (simp add: list_update_same_conv)
  next
    case False
    then show ?thesis by simp
  qed
qed

lemma fields_zero_unchanged:
  "visits f = 0 \<and> wins f = 0 \<Longrightarrow> f\<lparr>visits := 0, wins := 0\<rparr> = (f :: treenode_all)"
  by simp

lemma reset_node_unvisited:
  assumes "list_all (\<lambda>f. visits f = 0 \<and> wins f = 0) (all_fields t)"
  shows "reset_node i t = t"
proof -
  have "\<forall>f \<in> set (all_fields t). f\<lparr>visits := 0, wins := 0\<rparr> = f"
    using assms by (simp add: list_all_iff)
  from update_at_unchanged [OF this] show ?thesis
    by (simp add: reset_node_def split: option.splits del: update_at.simps)
qed

lemma fold_reset_node_unvisited:
  "list_all (\<lambda>f. visits f = 0 \<and> wins f = 0) (all_fields t) \<Longrightarrow> fold reset_node ids t = t"
  by (induction ids) (simp_all add: reset_node_unvisited)

lemma reset_statistics_unvisited:
  "list_all (\<lambda>f. visits f = 0 \<and> wins f = 0) (all_fields t) \<Longrightarrow> reset_statistics t = t"
  by (simp add: reset_statistics_def fold_reset_node_unvisited)

lemma counters_ok_reset_node: "counters_ok t \<Longrightarrow> counters_ok (reset_node i t)"
  unfolding counters_ok_iff
  by (auto simp: reset_node_def fields_at_update_at split: option.splits if_splits
           simp del: update_at.simps)

lemma counters_ok_fold_reset: "counters_ok t \<Longrightarrow> counters_ok (fold reset_node ids t)"
  by (induction ids arbitrary: t) (simp_all add: counters_ok_reset_node)

lemma counters_ok_reset_statistics: "counters_ok t \<Longrightarrow> counters_ok (reset_statistics t)"
  by (simp add: reset_statistics_def counters_ok_fold_reset)

lemma build_subtree_unvisited:
  "build_subtree j d m = Inr t \<Longrightarrow> list_all (\<lambda>f. visits f = 0 \<and> wins f = 0) (all_fields t)"
  "build_children js d m = Inr ts \<Longrightarrow>
     list_all (\<lambda>f. visits f = 0 \<and> wins f = 0) (concat (map all_fields ts))"
  by (induction j d m and js d m arbitrary: t and ts rule: build_subtree_build_children.induct)
     (auto split: option.splits sum.splits simp: TreeNode_def)

lemma unvisited_counters_ok:
  "list_all (\<lambda>f. visits f = 0 \<and> wins f = 0) (all_fields t) \<Longrightarrow> counters_ok t"
  by (simp add: counters_ok_def list_all_iff)

lemma get_best_child_error: "get_best_child g n w = Inl e \<Longrightarrow> e = IndexError"
  by (auto simp: get_best_child_def random_choice_def split: sum.splits if_splits prod.splits)

lemma run_mcts_error: "run_mcts cfg g t = Inl e \<Longrightarrow> e = IndexError \<or> e = ZeroDivisionError"
proof -
  assume a: "run_mcts cfg g t = Inl e"
  let ?w = "case exploration_weight cfg of None \<Rightarrow> 1.4 | Some x \<Rightarrow> x"
  let ?k = "nat (case mcts_iterations cfg of None \<Rightarrow> 10 | Some n \<Rightarrow> n)"
  from mcts_iterate_total [of ?w ?k "reset_statistics t" g] obtain t1 g1 where
    it: "mcts_iterate ?w ?k (reset_statistics t, g) = Inr (t1, g1)" by blast
  from a it show ?thesis
    by (auto simp: run_mcts_def Let_def split: sum.splits if_splits dest: get_best_child_error)
qed

lemma run_mcts_no_iterations:
  assumes "mcts_iterations cfg = Some n" "n < 1"
    and "list_all (\<lambda>f. visits f = 0 \<and> wins f = 0) (all_fields t)"
  shows "run_mcts cfg g t = Inl (if children t = [] then IndexError else ZeroDivisionError)"
proof -
  have r: "reset_statistics t = t" using assms(3) by (rule reset_statistics_unvisited)
  have k: "nat n = 0" using assms(2) by simp
  show ?thesis
  proof (cases "children t")
    case Nil
    then have "get_best_child g t 0 = Inl IndexError"
      by (simp add: get_best_child_def random_choice_def)
    with r k assms(1) Nil show ?thesis by (simp add: run_mcts_def)
  next
    case (Cons c cs)
    from assms(3) have "\<forall>f \<in> set (all_fields t). visits f = 0" by (simp add: list_all_iff)
    moreover have "set (all_fields c) \<subseteq> set (all_fields t)"
      using all_fields_child [of 0 t] Cons by simp
    moreover have "info c \<in> set (all_fields c)" by (cases c) simp
    ultimately have z: "visits (info c) = 0" by blast
    then have "get_best_child g t 0 = Inr (0, g)"
      using Cons by (simp add: get_best_child_def)
    with r k assms(1) Cons z show ?thesis by (simp add: run_mcts_def)
  qed
qed

lemma expansion_any_unvisited:
  assumes "i < length (children n)" "visits (info (children n ! i)) = 0"
  shows "\<exists>g0. fst (mcts_expansion g0 n) = Some i"
proof -
  let ?u = "filter (\<lambda>i. visits (info (children n ! i)) = 0) [0..<length (children n)]"
  from assms have "i \<in> set ?u" by simp
  then obtain k where k: "k < length ?u" "?u ! k = i" by (meson in_set_conv_nth)
  then have ne: "?u \<noteq> []" by (metis length_greater_0_conv not_less_zero neq0_conv)
  have "next_draw (\<lambda>j. k) = (k, \<lambda>j. k)" by (simp add: next_draw_def)
  with k ne have "fst (mcts_expansion (\<lambda>j. k) n) = Some i"
    by (simp add: mcts_expansion_def Let_def del: upt.simps)
  then show ?thesis by blast
qed

lemma mcts_expansion_unvisited:
  assumes "list_ex (\<lambda>c. visits (info c) = 0) (children n)"
  shows "\<exists>i g'. mcts_expansion g n = (Some i, g')"
proof -
  let ?u = "filter (\<lambda>i. visits (info (children n ! i)) = 0) [0..<length (children n)]"
  from assms obtain i where "i < length (children n)" "visits (info (children n ! i)) = 0"
    by (auto simp: list_ex_iff in_set_conv_nth)
  then have "i \<in> set ?u" by simp
  then have ne: "?u \<noteq> []" by (metis empty_iff empty_set)
  obtain r g1 where "next_draw g = (r, g1)" by (cases "next_draw g")
  with ne show ?thesis by (simp add: mcts_expansion_def Let_def del: upt.simps)
qed

lemma mcts_expansion_all_visited:
  assumes "list_all (\<lambda>c. visits (info c) > 0) (children n)"
  shows "mcts_expansion g n = (None, g)"
proof -
  have "filter (\<lambda>i. visits (info (children n ! i)) = 0) [0..<length (children n)] = []"
    using assms by (auto simp: filter_empty_conv list_all_length)
  then show ?thesis by (simp add: mcts_expansion_def del: upt.simps)
qed

section \<open>The UCB1 score\<close>

text \<open>Bounds for \<open>ln 10\<close> by repeated squaring of bounds for the exponential.\<close>

lemma exp_double_upper: "exp x \<le> c \<Longrightarrow> c * c \<le> d \<Longrightarrow> exp (2 * x) \<le> (d::real)"
proof -
  assume a: "exp x \<le> c" and b: "c * c \<le> d"
  have "exp (2 * x) = exp x * exp x" by (simp add: exp_add [symmetric])
  also have "\<dots> \<le> c * c" using a by (intro mult_mono) (auto intro: order_trans [OF exp_ge_zero])
  finally show ?thesis using b by simp
qed

lemma exp_double_lower: "c \<le> exp x \<Longrightarrow> 0 \<le> c \<Longrightarrow> d \<le> c * c \<Longrightarrow> (d::real) \<le> exp (2 * x)"
proof -
  assume a: "c \<le> exp x" and p: "0 \<le> c" and b: "d \<le> c * c"
  have "c * c \<le> exp x * exp x" using a p by (intro mult_mono) auto
  also have "\<dots> = exp (2 * x)" by (simp add: exp_add [symmetric])
  finally show ?thesis using b by simp
qed

lemma ln_10_lower: "(5749 / 2500) < ln (10::real)"
proof -
  have e0: "exp (5749 / 10240000) \<le> ((3126755440563 / 3125000000000)::real)"
    using exp_bound [of "(5749 / 10240000) :: real"] by (simp add: power2_eq_square)
  have e1: "exp (5749 / 5120000) \<le> ((4004495190053 / 4000000000000)::real)"
    using exp_double_upper [OF e0, of "(4004495190053 / 4000000000000)"] by simp
  have e2: "exp (5749 / 2560000) \<le> ((6264055362171 / 6250000000000)::real)"
    using exp_double_upper [OF e1, of "(6264055362171 / 6250000000000)"] by simp
  have e3: "exp (5749 / 1280000) \<le> ((100450277325679 / 100000000000000)::real)"
    using exp_double_upper [OF e2, of "(100450277325679 / 100000000000000)"] by simp
  have e4: "exp (5749 / 640000) \<le> ((100902582148059 / 100000000000000)::real)"
    using exp_double_upper [OF e3, of "(100902582148059 / 100000000000000)"] by simp
  have e5: "exp (5749 / 320000) \<le> ((50906655420729 / 50000000000000)::real)"
    using exp_double_upper [OF e4, of "(50906655420729 / 50000000000000)"] by simp
  have e6: "exp (5749 / 160000) \<le> ((51829751322497 / 50000000000000)::real)"
    using exp_double_upper [OF e5, of "(51829751322497 / 50000000000000)"] by simp
  have e7: "exp (5749 / 80000) \<le> ((26863231221519 / 25000000000000)::real)"
    using exp_double_upper [OF e6, of "(26863231221519 / 25000000000000)"] by simp
  have e8: "exp (5749 / 40000) \<le> ((115461310665727 / 100000000000000)::real)"
    using exp_double_upper [OF e7, of "(115461310665727 / 100000000000000)"] by simp
  have e9: "exp (5749 / 20000) \<le> ((33328285651619 / 25000000000000)::real)"
    using exp_double_upper [OF e8, of "(33328285651619 / 25000000000000)"] by simp
  have e10: "exp (5749 / 10000) \<le> ((177723939916147 / 100000000000000)::real)"
    using exp_double_upper [OF e9, of "(177723939916147 / 100000000000000)"] by simp
  have e11: "exp (5749 / 5000) \<le> ((315857988193183 / 100000000000000)::real)"
    using exp_double_upper [OF e10, of "(315857988193183 / 100000000000000)"] by simp
  have e12: "exp (5749 / 2500) \<le> ((19953253741089 / 2000000000000)::real)"
    using exp_double_upper [OF e11, of "(19953253741089 / 2000000000000)"] by simp
  from e12 have "exp (5749 / 2500) < exp (ln (10::real))" by simp
  then show ?thesis by (simp only: exp_less_cancel_iff)
qed

lemma ln_10_upper: "ln (10::real) < (4607 / 2000)"
proof -
  have e0: "((1590871911633 / 1562500000000)::real) \<le> exp (4607 / 256000)"
    using exp_lower_Taylor_quadratic [of "(4607 / 256000) :: real"] by (simp add: power2_eq_square)
  have e1: "((103664576070567 / 100000000000000)::real) \<le> exp (4607 / 128000)"
    using exp_double_lower [OF e0, of "(103664576070567 / 100000000000000)"] by simp
  have e2: "((107463443318903 / 100000000000000)::real) \<le> exp (4607 / 64000)"
    using exp_double_lower [OF e1, of "(107463443318903 / 100000000000000)"] by simp
  have e3: "((2309678329991 / 2000000000000)::real) \<le> exp (4607 / 32000)"
    using exp_double_lower [OF e2, of "(2309678329991 / 2000000000000)"] by simp
  have e4: "((533461398803 / 400000000000)::real) \<le> exp (4607 / 16000)"
    using exp_double_lower [OF e3, of "(533461398803 / 400000000000)"] by simp
  have e5: "((177863165008033 / 100000000000000)::real) \<le> exp (4607 / 8000)"
    using exp_double_lower [OF e4, of "(177863165008033 / 100000000000000)"] by simp
  have e6: "((316353054666747 / 100000000000000)::real) \<le> exp (4607 / 4000)"
    using exp_double_lower [OF e5, of "(316353054666747 / 100000000000000)"] by simp
  have e7: "((500396275984909 / 50000000000000)::real) \<le> exp (4607 / 2000)"
    using exp_double_lower [OF e6, of "(500396275984909 / 50000000000000)"] by simp
  from e7 have "exp (ln (10::real)) < exp (4607 / 2000)" by simp
  then show ?thesis by (simp only: exp_less_cancel_iff)
qed

lemma ucb_example_value:
  "\<bar>0.5 + 1.4 * sqrt (ln 10 / 4) - 1.562\<bar> < (0.0005 :: real)"
proof -
  have lo: "(0.75822::real) < sqrt (ln 10 / 4)"
    using ln_10_lower by (intro real_less_rsqrt) (simp add: power2_eq_square)
  have hi: "sqrt (ln 10 / 4) < (0.7589::real)"
    using ln_10_upper by (intro real_less_lsqrt) (simp_all add: power2_eq_square)
  define s where "s = sqrt (ln 10 / 4 :: real)"
  from lo hi have "75822 / 100000 < s" "s < 7589 / 10000"
    by (simp_all add: s_def)
  then have "\<bar>1 / 2 + 7 / 5 * s - 1562 / 1000\<bar> < 5 / 10000"
    by linarith
  then show ?thesis by (simp add: s_def)
qed


text \<open>
  Claim C6. The score of a node without visits is \<^verbatim>\<open>inf\<close>. Otherwise it is the win rate
  plus the exploration term: nothing for the root (no parent), \<^verbatim>\<open>inf\<close> when the parent has
  no visits, and \<open>exploration_weight * sqrt (ln (parent visits) / visits)\<close> in the remaining
  case. For 4 visits, 2 wins, a parent with 10 visits and the weight 1.4 the score is
  \<open>0.5 + 1.4 * sqrt (ln 10 / 4)\<close>, which lies within 0.0005 of 1.562. The arithmetic is that
  of the real numbers.
\<close>

theorem calculate_ucb_cases:
  "(visits n = 0 \<longrightarrow> calculate_ucb parent n w = PosInf)
   \<and> (visits n \<noteq> 0 \<longrightarrow> calculate_ucb None n w = Num (real (wins n) / real (visits n)))
   \<and> (visits n \<noteq> 0 \<and> visits p = 0 \<longrightarrow> calculate_ucb (Some p) n w = PosInf)
   \<and> (visits n \<noteq> 0 \<and> visits p \<noteq> 0 \<longrightarrow>
        calculate_ucb (Some p) n w =
          Num (real (wins n) / real (visits n) + w * sqrt (ln (real (visits p)) / real (visits n))))
   \<and> (visits n = 4 \<and> wins n = 2 \<and> visits p = 10 \<longrightarrow>
        calculate_ucb (Some p) n 1.4 = Num (0.5 + 1.4 * sqrt (ln 10 / 4)))
   \<and> \<bar>0.5 + 1.4 * sqrt (ln 10 / 4) - 1.562\<bar> < (0.0005 :: real)"
proof (intro conjI impI)
  show "\<bar>0.5 + 1.4 * sqrt (ln 10 / 4) - 1.562\<bar> < (0.0005 :: real)"
    by (rule ucb_example_value)
qed (simp_all add: calculate_ucb_def Let_def)

theorem calculate_ucb_cases_witness:
  "visits (info (mcts_leaf ''a'' 1 4 2)) = 4 \<and> wins (info (mcts_leaf ''a'' 1 4 2)) = 2
   \<and> visits (info (mcts_root 10 5 [])) = 10
   \<and> calculate_ucb (Some (info (mcts_root 10 5 []))) (info (mcts_leaf ''a'' 1 4 2)) 1.4
       = Num (0.5 + 1.4 * sqrt (ln 10 / 4))
   \<and> calculate_ucb (Some (info (mcts_root 10 5 []))) (info (mcts_leaf ''a'' 1 0 0)) 1.4 = PosInf
   \<and> calculate_ucb None (info (mcts_root 10 5 [])) 1.4 = Num (1 / 2)
   \<and> calculate_ucb (Some (info (mcts_root 0 0 []))) (info (mcts_leaf ''a'' 1 4 2)) 1.4 = PosInf"
proof -
  have h: "visits (info (mcts_leaf ''a'' 1 4 2)) = 4 \<and> wins (info (mcts_leaf ''a'' 1 4 2)) = 2
     \<and> visits (info (mcts_root 10 5 [])) = 10 \<and> wins (info (mcts_root 10 5 [])) = 5
     \<and> visits (info (mcts_leaf ''a'' 1 0 0)) = 0 \<and> visits (info (mcts_root 0 0 [])) = 0"
    by (simp add: mcts_leaf_def mcts_root_def)
  show ?thesis
    using h
      calculate_ucb_cases [of "info (mcts_leaf ''a'' 1 4 2)" _ _ "info (mcts_root 10 5 [])"]
      calculate_ucb_cases [of "info (mcts_leaf ''a'' 1 0 0)" "Some (info (mcts_root 10 5 []))" "1.4"]
      calculate_ucb_cases [of "info (mcts_root 10 5 [])" _ "1.4"]
      calculate_ucb_cases [of "info (mcts_leaf ''a'' 1 4 2)" _ "1.4" "info (mcts_root 0 0 [])"]
    by simp
qed

section \<open>The two copies of minimax\<close>

lemma erase_fields_update [simp]:
  "erase_fields (f\<lparr>alpha := a\<rparr>) = (erase_fields f)\<lparr>alpha := a\<rparr>"
  "erase_fields (f\<lparr>beta := b\<rparr>) = (erase_fields f)\<lparr>beta := b\<rparr>"
  "erase_fields (f\<lparr>nvalue := v\<rparr>) = (erase_fields f)\<lparr>nvalue := v\<rparr>"
  "erase_fields (f\<lparr>pruned := p\<rparr>) = (erase_fields f)\<lparr>pruned := p\<rparr>"
  "erase_fields (f\<lparr>depth := d\<rparr>) = (erase_fields f)\<lparr>depth := d\<rparr>"
  "erase_fields (f\<lparr>is_max_node := m\<rparr>) = (erase_fields f)\<lparr>is_max_node := m\<rparr>"
  by (simp_all add: erase_fields_def)

lemma erase_fields_sel [simp]:
  "is_max_node (erase_fields f) = is_max_node f"
  "nvalue (erase_fields f) = nvalue f"
  "pruned (erase_fields f) = pruned f"
  "node_id (erase_fields f) = node_id f"
  by (simp_all add: erase_fields_def)

lemma info_erase [simp]: "info (erase t) = erase_fields (info t)"
  by (cases t) simp

lemma children_erase [simp]: "children (erase t) = map erase (children t)"
  by (cases t) simp

lemma erase_set_pruned [simp]: "erase (set_pruned t) = set_pruned (erase t)"
  by (cases t) (simp add: set_pruned_def)

lemma mm_minimax_erase:
  "mm_minimax pr (erase t) a b = erase_result (minimax pr t a b)"
  "mm_minimax_loop pr mx a b v best (map erase dn) (map erase cs)
     = erase_loop_result (minimax_loop pr mx a b v best dn cs)"
proof (induction pr t a b and pr mx a b v best dn cs rule: minimax_minimax_loop.induct)
  case (1 pruning f cs a b)
  show ?case
  proof (cases "cs = []")
    case True
    then show ?thesis by simp
  next
    case False
    with 1 [OF refl False] show ?thesis
      by (cases "minimax_loop pruning (is_max_node f) a b
                   (if is_max_node f then NegInf else PosInf) None [] cs")
         (auto simp: Let_def)
  qed
next
  case (2 pruning is_max a b v best_child dn)
  show ?case by simp
next
  case (3 pruning is_max a b v best_child dn c rest)
  show ?case
  proof (cases "pruned (info c)")
    case True
    with 3(1) [OF True] show ?thesis by simp
  next
    case False
    note np = False
    show ?thesis
    proof (cases "minimax pruning c a b")
      case (Inl e)
      with np 3(2) [OF np] show ?thesis by simp
    next
      case (Inr r)
      obtain cv c' where r: "r = (cv, c')" by (cases r)
      from np 3(2) [OF np] Inr r
      have m: "mm_minimax pruning (erase c) a b = Inr (cv, erase c')" by simp
      show ?thesis
      proof (cases "update_value is_max best_child cv v")
        case (Inl e)
        with np Inr r m show ?thesis by simp
      next
        case (Inr upd)
        note u = Inr
        show ?thesis
        proof (cases "if upd then cv else Some v")
          case None
          with np \<open>minimax pruning c a b = Inr r\<close> r m u show ?thesis by simp
        next
          case (Some v1)
          from 3(3) [OF np \<open>minimax pruning c a b = Inr r\<close> r [symmetric] u Some refl refl refl]
          have ih: "\<not> (pruning \<and> (if is_max then b else min b v1) \<le> (if is_max then max a v1 else a)) \<Longrightarrow>
            mm_minimax_loop pruning is_max (if is_max then max a v1 else a)
              (if is_max then b else min b v1) v1 (if upd then Some (length dn) else best_child)
              (map erase (dn @ [c'])) (map erase rest)
            = erase_loop_result
               (minimax_loop pruning is_max (if is_max then max a v1 else a)
              (if is_max then b else min b v1) v1 (if upd then Some (length dn) else best_child)
              (dn @ [c']) rest)"
            by simp
          show ?thesis
          proof (cases "pruning \<and> (if is_max then b else min b v1) \<le> (if is_max then max a v1 else a)")
            case True
            with np \<open>minimax pruning c a b = Inr r\<close> r m u Some show ?thesis
              by (simp add: Let_def)
          next
            case False
            from ih [OF False] np \<open>minimax pruning c a b = Inr r\<close> r m u Some False
            show ?thesis by (cases is_max; cases upd; cases pruning) (auto simp: Let_def)
          qed
        qed
      qed
    qed
  qed
qed

lemma mm_build_erase:
  "mm_build_subtree j d m = (case build_subtree j d m of Inl e \<Rightarrow> Inl e | Inr t \<Rightarrow> Inr (erase t))"
  "mm_build_children js d m =
     (case build_children js d m of Inl e \<Rightarrow> Inl e | Inr ts \<Rightarrow> Inr (map erase ts))"
  by (induction j d m and js d m rule: build_subtree_build_children.induct)
     (auto split: option.splits sum.splits simp: TreeNode_def mm_TreeNode_def erase_fields_def)

lemma mm_build_tree_erase:
  "mm_build_tree td = (case build_tree td of Inl e \<Rightarrow> Inl e | Inr t \<Rightarrow> Inr (map_option erase t))"
  by (cases td) (auto simp: mm_build_erase split: sum.splits)

lemma pruned_edges_erase: "pruned_edges (erase t) = pruned_edges t"
proof (induction t)
  case (Node f cs)
  have 1: "map (\<lambda>c. (node_id f, node_id (info c)))
          (filter (\<lambda>c. pruned (info c)) (map erase cs))
        = map (\<lambda>c. (node_id f, node_id (info c))) (filter (\<lambda>c. pruned (info c)) cs)"
    by (induction cs) auto
  have 2: "map (pruned_edges \<circ> erase) cs = map pruned_edges cs"
    using Node.IH by simp
  show ?case by (simp add: 1 2)
qed


text \<open>
  Claim C10. The builder and \<^verbatim>\<open>minimax\<close> of \<^verbatim>\<open>visualizer_minimax.py\<close> do on a tree file
  what those of \<^verbatim>\<open>visualizer_all.py\<close> do, up to the two counters the second file's nodes do
  not have: the same tree is built, and for the same pruning flag the run raises the same
  error or returns the same value, the same tree and the same set of pruned edges.
\<close>

theorem minimax_files_agree:
  "mm_build_tree td = (case build_tree td of Inl e \<Rightarrow> Inl e | Inr t \<Rightarrow> Inr (map_option erase t))
   \<and> (build_tree td = Inr (Some t) \<longrightarrow>
        mm_build_tree td = Inr (Some (erase t))
        \<and> (case run_minimax pruning t of
              Inl e \<Rightarrow> mm_run_minimax pruning (erase t) = Inl e
            | Inr (v, t') \<Rightarrow>
                mm_run_minimax pruning (erase t) = Inr (v, erase t')
                \<and> pruned_edges (erase t') = pruned_edges t'))"
proof (intro conjI impI)
  show "mm_build_tree td = (case build_tree td of Inl e \<Rightarrow> Inl e | Inr t \<Rightarrow> Inr (map_option erase t))"
    by (rule mm_build_tree_erase)
next
  assume "build_tree td = Inr (Some t)"
  then show "mm_build_tree td = Inr (Some (erase t))" by (simp add: mm_build_tree_erase)
next
  have "mm_run_minimax pruning (erase t) = erase_result (run_minimax pruning t)"
    by (simp add: mm_run_minimax_def run_minimax_def mm_minimax_erase)
  then show "case run_minimax pruning t of
              Inl e \<Rightarrow> mm_run_minimax pruning (erase t) = Inl e
            | Inr (v, t') \<Rightarrow>
                mm_run_minimax pruning (erase t) = Inr (v, erase t')
                \<and> pruned_edges (erase t') = pruned_edges t'"
    by (cases "run_minimax pruning t") (auto simp: pruned_edges_erase)
qed

lemma build_example_tree: "build_tree example_data = Inr (Some example_tree)"
  by (simp add: example_data_def example_tree_def fresh_node_def)

lemma run_minimax_example_pruning:
  "run_minimax True example_tree = Inr (Some (Num 3), example_result)"
  by (simp add: run_minimax_def example_tree_def example_result_def fresh_node_def TreeNode_def
      update_value_def set_pruned_def Let_def max_def min_def)

lemma pruned_edges_example: "pruned_edges example_result = [(''B'', ''B2'')]"
  by (simp add: example_result_def TreeNode_def)

theorem minimax_files_agree_witness:
  "build_tree example_data = Inr (Some example_tree)
   \<and> mm_build_tree example_data = Inr (Some (erase example_tree))
   \<and> mm_run_minimax True (erase example_tree) = Inr (Some (Num 3), erase example_result)
   \<and> pruned_edges (erase example_result) = [(''B'', ''B2'')]"
  using minimax_files_agree [of example_data example_tree True]
    build_example_tree run_minimax_example_pruning pruned_edges_example
  by simp

section \<open>The effect of a cutoff\<close>

lemma frame_list_refl_aux: "(\<And>c. c \<in> set cs \<Longrightarrow> frame c c) \<Longrightarrow> frame_list cs cs"
  by (induction cs) auto

lemma frame_refl: "frame t t"
  by (induction t) (simp add: frame_list_refl_aux)

lemma frame_list_refl: "frame_list ts ts"
  by (simp add: frame_list_refl_aux frame_refl)

lemma frame_set_pruned: "frame c (set_pruned c)"
  by (cases c) (simp add: set_pruned_def frame_list_refl)

lemma frame_list_set_pruned: "frame_list cs (map set_pruned cs)"
  by (induction cs) (auto simp: frame_set_pruned)

lemma frame_list_same_length: "frame_list cs cs' \<Longrightarrow> length cs' = length cs"
proof (induction cs arbitrary: cs')
  case Nil
  then show ?case by (cases cs') auto
next
  case (Cons c cs)
  then show ?case by (cases cs') auto
qed

lemma minimax_keeps_own_mark:
  "minimax pr t a b = Inr (v, t') \<Longrightarrow> pruned (info t') = pruned (info t)"
  by (cases t) (auto simp: Let_def split: if_splits sum.splits prod.splits)

lemma minimax_frame:
  "minimax pr t a b = Inr (v, t') \<Longrightarrow> frame t t'"
  "minimax_loop pr mx a b v0 best dn cs = Inr (v1, best1, cs')
     \<Longrightarrow> \<exists>ps. cs' = dn @ ps \<and> frame_list cs ps"
proof (induction pr t a b and pr mx a b v0 best dn cs arbitrary: v t' and v1 best1 cs'
       rule: minimax_minimax_loop.induct)
  case (1 pruning f cs a b)
  show ?case
  proof (cases "cs = []")
    case True
    with 1(2) show ?thesis by (auto simp: Let_def)
  next
    case False
    with 1(2) obtain w bst cs1 where
      l: "minimax_loop pruning (is_max_node f) a b (if is_max_node f then NegInf else PosInf)
            None [] cs = Inr (w, bst, cs1)"
      and t': "t' = Node (f\<lparr>alpha := a, beta := b, nvalue := Some w\<rparr>) cs1"
      by (auto simp: Let_def split: sum.splits)
    from 1(1) [OF refl False] l have "frame_list cs cs1" by auto
    with t' show ?thesis by simp
  qed
next
  case (2 pruning is_max a b v best_child dn)
  then show ?case by simp
next
  case (3 pruning is_max a b v best_child dn c rest)
  show ?case
  proof (cases "pruned (info c)")
    case True
    with 3(4) have "minimax_loop pruning is_max a b v best_child (dn @ [c]) rest
        = Inr (v1, best1, cs')" by simp
    from 3(1) [OF True this] obtain ps where "cs' = (dn @ [c]) @ ps" "frame_list rest ps"
      by blast
    then have "cs' = dn @ (c # ps) \<and> frame_list (c # rest) (c # ps)"
      using True by (simp add: frame_refl)
    then show ?thesis by blast
  next
    case False
    note np = False
    from 3(4) np obtain cv c' where m: "minimax pruning c a b = Inr (cv, c')"
      by (auto split: sum.splits)
    from 3(2) [OF np m] have fc: "frame c c'" .
    from minimax_keeps_own_mark [OF m] np have nc: "\<not> pruned (info c')" by simp
    from 3(4) np m obtain upd where u: "update_value is_max best_child cv v = Inr upd"
      by (auto split: sum.splits)
    from 3(4) np m u obtain w where w: "(if upd then cv else Some v) = Some w"
      by (auto split: option.splits)
    let ?a1 = "if is_max then max a w else a"
    let ?b1 = "if is_max then b else min b w"
    let ?best = "if upd then Some (length dn) else best_child"
    show ?thesis
    proof (cases "pruning \<and> ?b1 \<le> ?a1")
      case True
      with 3(4) np m u w have "cs' = dn @ [c'] @ map set_pruned rest"
        by (auto simp: Let_def)
      then have "cs' = dn @ (c' # map set_pruned rest)
          \<and> frame_list (c # rest) (c' # map set_pruned rest)"
        using fc nc by (simp add: frame_list_set_pruned)
      then show ?thesis by blast
    next
      case False
      with 3(4) np m u w
      have "minimax_loop pruning is_max ?a1 ?b1 w ?best (dn @ [c']) rest = Inr (v1, best1, cs')"
        by (auto simp: Let_def)
      from 3(3) [OF np m refl u w refl refl refl False this]
      obtain ps where "cs' = (dn @ [c']) @ ps" "frame_list rest ps" by blast
      then have "cs' = dn @ (c' # ps) \<and> frame_list (c # rest) (c' # ps)"
        using fc nc by simp
      then show ?thesis by blast
    qed
  qed
qed


lemma minimax_plain_marks:
  "\<not> pr \<Longrightarrow> minimax pr t a b = Inr (v, t')
     \<Longrightarrow> map pruned (all_fields t') = map pruned (all_fields t)"
  "\<not> pr \<Longrightarrow> minimax_loop pr mx a b v0 best dn cs = Inr (v1, best1, cs')
     \<Longrightarrow> map pruned (concat (map all_fields cs'))
         = map pruned (concat (map all_fields (dn @ cs)))"
proof (induction pr t a b and pr mx a b v0 best dn cs arbitrary: v t' and v1 best1 cs'
       rule: minimax_minimax_loop.induct)
  case (1 pruning f cs a b)
  show ?case
  proof (cases "cs = []")
    case True
    with 1(3) show ?thesis by (auto simp: Let_def)
  next
    case False
    with 1(3) obtain w bst cs1 where
      l: "minimax_loop pruning (is_max_node f) a b (if is_max_node f then NegInf else PosInf)
            None [] cs = Inr (w, bst, cs1)"
      and t': "t' = Node (f\<lparr>alpha := a, beta := b, nvalue := Some w\<rparr>) cs1"
      by (auto simp: Let_def split: sum.splits)
    from 1(1) [OF refl False 1(2)] l
    have "map pruned (concat (map all_fields cs1)) = map pruned (concat (map all_fields cs))"
      by auto
    with t' show ?thesis by simp
  qed
next
  case (2 pruning is_max a b v best_child dn)
  then show ?case by simp
next
  case (3 pruning is_max a b v best_child dn c rest)
  show ?case
  proof (cases "pruned (info c)")
    case True
    with 3(5) have "minimax_loop pruning is_max a b v best_child (dn @ [c]) rest
        = Inr (v1, best1, cs')" by simp
    from 3(1) [OF True 3(4) this] show ?thesis by simp
  next
    case False
    note np = False
    from 3(5) np obtain cv c' where m: "minimax pruning c a b = Inr (cv, c')"
      by (auto split: sum.splits)
    from 3(2) [OF np 3(4) m]
    have fc: "map pruned (all_fields c') = map pruned (all_fields c)" .
    from 3(5) np m obtain upd where u: "update_value is_max best_child cv v = Inr upd"
      by (auto split: sum.splits)
    from 3(5) np m u obtain w where w: "(if upd then cv else Some v) = Some w"
      by (auto split: option.splits)
    let ?a1 = "if is_max then max a w else a"
    let ?b1 = "if is_max then b else min b w"
    let ?best = "if upd then Some (length dn) else best_child"
    have nocut: "\<not> (pruning \<and> ?b1 \<le> ?a1)" using 3(4) by simp
    with 3(5) np m u w
    have "minimax_loop pruning is_max ?a1 ?b1 w ?best (dn @ [c']) rest = Inr (v1, best1, cs')"
      by (auto simp: Let_def)
    from 3(3) [OF np m refl u w refl refl refl nocut 3(4) this] fc
    show ?thesis by simp
  qed
qed

lemma minimax_loop_cutoff:
  assumes "\<not> pruned (info c)" and "minimax True c a b = Inr (cv, c')"
    and "update_value is_max best cv v = Inr upd"
    and "(if upd then cv else Some v) = Some v1"
    and "(if is_max then b else min b v1) \<le> (if is_max then max a v1 else a)"
  shows "minimax_loop True is_max a b v best dn (c # rest)
     = Inr (v1, (if upd then Some (length dn) else best), dn @ [c'] @ map set_pruned rest)"
  using assms by (simp add: Let_def)

text \<open>
  Claim C8. With pruning enabled, when \<open>beta \<le> alpha\<close> holds after a child has been
  processed, the loop stops there and every child after it is marked pruned: each is the
  child as it was with only the mark set, so it is not entered, nothing below it changes and
  it is assigned no value. This holds for the whole run: a child that the run marked is
  unchanged apart from the mark (\<open>frame\<close>). With pruning disabled the pruned marks of all
  nodes after the run are those before it, so no node is marked.
\<close>

theorem pruning_effect_and_frame:
  "(\<not> pruned (info c) \<and> minimax True c a b = Inr (cv, c')
      \<and> update_value is_max best cv v = Inr upd \<and> (if upd then cv else Some v) = Some v1
      \<and> (if is_max then b else min b v1) \<le> (if is_max then max a v1 else a)
     \<longrightarrow> minimax_loop True is_max a b v best dn (c # rest)
           = Inr (v1, (if upd then Some (length dn) else best),
                  dn @ [c'] @ map set_pruned rest))
   \<and> info (set_pruned c) = (info c)\<lparr>pruned := True\<rparr> \<and> children (set_pruned c) = children c
   \<and> (minimax pruning t a b = Inr (r, t') \<longrightarrow> frame t t')
   \<and> (minimax False t a b = Inr (r, t') \<longrightarrow>
        map pruned (all_fields t') = map pruned (all_fields t))"
proof (intro conjI impI)
  assume "\<not> pruned (info c) \<and> minimax True c a b = Inr (cv, c')
      \<and> update_value is_max best cv v = Inr upd \<and> (if upd then cv else Some v) = Some v1
      \<and> (if is_max then b else min b v1) \<le> (if is_max then max a v1 else a)"
  then show "minimax_loop True is_max a b v best dn (c # rest)
           = Inr (v1, (if upd then Some (length dn) else best),
                  dn @ [c'] @ map set_pruned rest)"
    using minimax_loop_cutoff [of c a b cv c' is_max best v upd v1 dn rest] by blast
next
  show "info (set_pruned c) = (info c)\<lparr>pruned := True\<rparr>" by (simp add: set_pruned_def)
  show "children (set_pruned c) = children c" by (simp add: set_pruned_def)
next
  assume "minimax pruning t a b = Inr (r, t')"
  then show "frame t t'" by (rule minimax_frame(1))
next
  assume "minimax False t a b = Inr (r, t')"
  then show "map pruned (all_fields t') = map pruned (all_fields t)"
    using minimax_plain_marks(1) [of False t a b r t'] by simp
qed


lemma run_minimax_example_plain:
  "run_minimax False example_tree = Inr (Some (Num 3), example_plain_result)"
  by (simp add: run_minimax_def example_tree_def example_plain_result_def fresh_node_def
      TreeNode_def update_value_def set_pruned_def Let_def max_def min_def)

theorem pruning_effect_and_frame_witness:
  "minimax True example_tree NegInf PosInf = Inr (Some (Num 3), example_result)
   \<and> frame example_tree example_result
   \<and> minimax False example_tree NegInf PosInf = Inr (Some (Num 3), example_plain_result)
   \<and> map pruned (all_fields example_plain_result) = map pruned (all_fields example_tree)
   \<and> minimax_loop True False (Num 3) PosInf PosInf None []
        [fresh_node ''B1'' (Some (Num 2)) 2 True [], fresh_node ''B2'' (Some (Num 9)) 2 True []]
      = Inr (Num 2, Some 0,
          [Node ((TreeNode ''B1'' (Some (Num 2)))\<lparr>depth := 2, alpha := Num 3\<rparr>) [],
           set_pruned (fresh_node ''B2'' (Some (Num 9)) 2 True [])])"
proof -
  have t: "minimax True example_tree NegInf PosInf = Inr (Some (Num 3), example_result)"
    using run_minimax_example_pruning by (simp add: run_minimax_def)
  have p: "minimax False example_tree NegInf PosInf = Inr (Some (Num 3), example_plain_result)"
    using run_minimax_example_plain by (simp add: run_minimax_def)
  have c: "\<not> pruned (info (fresh_node ''B1'' (Some (Num 2)) 2 True []))
      \<and> minimax True (fresh_node ''B1'' (Some (Num 2)) 2 True []) (Num 3) PosInf
          = Inr (Some (Num 2), Node ((TreeNode ''B1'' (Some (Num 2)))\<lparr>depth := 2, alpha := Num 3\<rparr>) [])
      \<and> update_value False None (Some (Num 2)) PosInf = Inr True
      \<and> (if True then Some (Num 2) else Some PosInf) = Some (Num 2)
      \<and> (if False then PosInf else min PosInf (Num 2)) \<le> (if False then max (Num 3) (Num 2) else Num 3)"
    by (simp add: fresh_node_def TreeNode_def update_value_def min_def)
  show ?thesis
    using t p c
      pruning_effect_and_frame [where pruning = True and t = example_tree and a = NegInf
        and b = PosInf and r = "Some (Num 3)" and t' = example_result]
      pruning_effect_and_frame [where t = example_tree and a = NegInf
        and b = PosInf and r = "Some (Num 3)" and t' = example_plain_result]
      pruning_effect_and_frame [where c = "fresh_node ''B1'' (Some (Num 2)) 2 True []"
        and a = "Num 3" and b = PosInf and cv = "Some (Num 2)"
        and c' = "Node ((TreeNode ''B1'' (Some (Num 2)))\<lparr>depth := 2, alpha := Num 3\<rparr>) []"
        and is_max = False and best = None and v = PosInf and upd = True and ?v1.0 = "Num 2"
        and dn = "[]" and rest = "[fresh_node ''B2'' (Some (Num 9)) 2 True []]"]
    by simp
qed

section \<open>Minimax against its contract\<close>

lemma is_number_iff: "is_number v = (\<exists>x. v = Some (Num x))"
  by (cases v rule: is_number.cases) auto

lemma minimax_refines_spec:
  "well_formed t \<Longrightarrow>
     minimax pr t a b = Inr (spec_evaluate pr t a b) \<and> is_number (fst (spec_evaluate pr t a b))"
  "list_all (\<lambda>c. \<not> pruned (info c) \<and> well_formed c) cs \<Longrightarrow>
   (best = None \<longrightarrow> v = start_value mx) \<Longrightarrow> (best \<noteq> None \<longrightarrow> is_number (Some v)) \<Longrightarrow>
     minimax_loop pr mx a b v best dn cs = Inr (spec_children pr mx a b v best dn cs)
     \<and> (cs \<noteq> [] \<or> best \<noteq> None \<longrightarrow> is_number (Some (fst (spec_children pr mx a b v best dn cs))))"
proof (induction pr t a b and pr mx a b v best dn cs rule: minimax_minimax_loop.induct)
  case (1 pruning f cs a b)
  show ?case
  proof (cases "cs = []")
    case True
    with 1(2) show ?thesis by (simp add: Let_def)
  next
    case False
    from 1(2) False have wf: "list_all (\<lambda>c. \<not> pruned (info c) \<and> well_formed c) cs" by simp
    have "minimax_loop pruning (is_max_node (f\<lparr>alpha := a, beta := b\<rparr>)) a b
            (if is_max_node (f\<lparr>alpha := a, beta := b\<rparr>) then NegInf else PosInf) None [] cs
          = Inr (spec_children pruning (is_max_node (f\<lparr>alpha := a, beta := b\<rparr>)) a b
            (if is_max_node (f\<lparr>alpha := a, beta := b\<rparr>) then NegInf else PosInf) None [] cs)
      \<and> (cs \<noteq> [] \<or> None \<noteq> (None :: nat option) \<longrightarrow>
          is_number (Some (fst (spec_children pruning (is_max_node (f\<lparr>alpha := a, beta := b\<rparr>)) a b
            (if is_max_node (f\<lparr>alpha := a, beta := b\<rparr>) then NegInf else PosInf) None [] cs))))"
      by (rule 1(1) [OF refl False wf]) (simp_all add: start_value_def)
    with False show ?thesis
      by (cases "spec_children pruning (is_max_node f) a b
                   (if is_max_node f then NegInf else PosInf) None [] cs")
         (auto simp: Let_def)
  qed
next
  case (2 pruning is_max a b v best_child dn)
  then show ?case by simp
next
  case (3 pruning is_max a b v best_child dn c rest)
  from 3(4) have np: "\<not> pruned (info c)" and wc: "well_formed c"
    and wr: "list_all (\<lambda>c. \<not> pruned (info c) \<and> well_formed c) rest" by auto
  obtain cv c' where se: "spec_evaluate pruning c a b = (cv, c')"
    by (cases "spec_evaluate pruning c a b")
  from 3(2) [OF np wc] se have m: "minimax pruning c a b = Inr (cv, c')" and "is_number cv"
    by auto
  then obtain x where cv: "cv = Some (Num x)" by (auto simp: is_number_iff)
  define better where "better = (if is_max then Num x > v else Num x < v)"
  have u: "update_value is_max best_child cv v = Inr better"
    using cv 3(5) by (auto simp: update_value_def better_def start_value_def)
  define w where "w = (if better then Num x else v)"
  have w: "(if better then cv else Some v) = Some w" using cv by (simp add: w_def)
  let ?a1 = "if is_max then max a w else a"
  let ?b1 = "if is_max then b else min b w"
  let ?best = "if better then Some (length dn) else best_child"
  have inv1: "?best = None \<longrightarrow> w = start_value is_max"
    using u 3(5) by (auto simp: update_value_def split: if_splits)
  have inv2: "?best \<noteq> None \<longrightarrow> is_number (Some w)"
    using 3(6) by (auto simp: w_def)
  have nw: "is_number (Some w)"
  proof (cases better)
    case True
    then show ?thesis by (simp add: w_def)
  next
    case False
    with u have "best_child \<noteq> None" by (auto simp: update_value_def split: if_splits)
    with 3(6) False show ?thesis by (simp add: w_def)
  qed
  show ?case
  proof (cases "pruning \<and> ?b1 \<le> ?a1")
    case True
    have "minimax_loop pruning is_max a b v best_child dn (c # rest)
        = Inr (w, ?best, dn @ [c'] @ map set_pruned rest)"
      using np m u w True by (cases is_max; cases better) (auto simp: Let_def)
    moreover have "spec_children pruning is_max a b v best_child dn (c # rest)
        = (w, ?best, dn @ [c'] @ map set_pruned rest)"
      using np se cv True by (cases is_max; cases better) (auto simp: Let_def better_def w_def)
    ultimately show ?thesis using nw by simp
  next
    case False
    from 3(3) [OF np m refl u w refl refl refl False wr inv1 inv2]
    have ih: "minimax_loop pruning is_max ?a1 ?b1 w ?best (dn @ [c']) rest
          = Inr (spec_children pruning is_max ?a1 ?b1 w ?best (dn @ [c']) rest)"
      and ihn: "rest \<noteq> [] \<or> ?best \<noteq> None \<longrightarrow>
          is_number (Some (fst (spec_children pruning is_max ?a1 ?b1 w ?best (dn @ [c']) rest)))"
      by auto
    have l: "minimax_loop pruning is_max a b v best_child dn (c # rest)
        = minimax_loop pruning is_max ?a1 ?b1 w ?best (dn @ [c']) rest"
      using np m u w False by (cases is_max; cases better; cases pruning) (auto simp: Let_def)
    have s: "spec_children pruning is_max a b v best_child dn (c # rest)
        = spec_children pruning is_max ?a1 ?b1 w ?best (dn @ [c']) rest"
      using np se cv False by (cases is_max; cases better) (auto simp: Let_def better_def w_def)
    have "is_number (Some (fst (spec_children pruning is_max ?a1 ?b1 w ?best (dn @ [c']) rest)))"
    proof (cases "rest = []")
      case True
      then show ?thesis using nw by simp
    next
      case False
      with ihn show ?thesis by simp
    qed
    with l s ih show ?thesis by simp
  qed
qed

section \<open>Pruning does not change the root value\<close>

lemma bracket_refl: "bracket a b w w"
  by (simp add: bracket_def)

lemma bracket_max_cut:
  assumes "v \<le> a" "a < b" "bracket a b cv m" "b \<le> max a cv"
  shows "bracket a b (max v cv) (max v (max m R))"
proof -
  from assms have c: "b \<le> cv" by (simp add: max_def split: if_splits)
  have "v \<le> cv" using assms(1,2) c by order
  then have 1: "max v cv = cv" by (simp add: max_def)
  from c assms have 2: "cv \<le> m" by (simp add: bracket_def)
  from c assms 2 have 3: "cv \<le> max v (max m R)" by (simp add: le_max_iff_disj)
  from c assms(2) have 4: "a < cv" by simp
  show ?thesis unfolding 1 bracket_def using 3 4 c by auto
qed

lemma bracket_max_step:
  assumes "v \<le> a" "a < b" "bracket a b cv m" "max a cv < b"
    and "bracket (max a cv) b w (max (max v cv) R)"
  shows "bracket a b w (max v (max m R))"
proof (cases "cv \<le> a")
  case True
  with assms(3) have mc: "m \<le> cv" by (simp add: bracket_def)
  from True have a1: "max a cv = a" by (simp add: max_def)
  have va: "max v cv \<le> a" using True assms(1) by simp
  have vm: "max v m \<le> a" using True mc assms(1) by simp
  from assms(5) have B: "bracket a b w (max (max v cv) R)" by (simp add: a1)
  have T: "max v (max m R) = max (max v m) R" by (simp add: max.assoc)
  show ?thesis
    unfolding T using B va vm mc assms(1,2)
    unfolding bracket_def by (auto simp: max_def split: if_splits)
next
  case False
  then have ac: "a < cv" by simp
  from assms(4) have cb: "cv < b" by simp
  from assms(3) ac cb have cm: "cv = m" by (simp add: bracket_def)
  from ac have a1: "max a cv = cv" by (simp add: max.absorb2 less_imp_le)
  have "v \<le> cv" using ac assms(1) by order
  then have vc: "max v cv = cv" by (simp add: max.absorb2)
  have T: "max v (max m R) = max cv R"
    using vc cm by (simp add: max.assoc [symmetric])
  from assms(5) have B: "bracket cv b w (max cv R)" by (simp add: a1 vc)
  show ?thesis
    unfolding T using B ac cb assms(1,2)
    unfolding bracket_def by (auto simp: max_def split: if_splits)
qed

lemma bracket_min_cut:
  assumes "b \<le> v" "a < b" "bracket a b cv m" "min b cv \<le> a"
  shows "bracket a b (min v cv) (min v (min m R))"
proof -
  from assms have c: "cv \<le> a" by (simp add: min_def split: if_splits)
  have "cv \<le> v" using assms(1,2) c by order
  then have 1: "min v cv = cv" by (simp add: min.absorb2)
  from c assms have 2: "m \<le> cv" by (simp add: bracket_def)
  from 2 have 3: "min v (min m R) \<le> cv" by (simp add: min_le_iff_disj)
  from c assms(2) have 4: "cv < b" by order
  show ?thesis unfolding 1 bracket_def using 3 4 c by auto
qed

lemma bracket_min_step:
  assumes "b \<le> v" "a < b" "bracket a b cv m" "a < min b cv"
    and "bracket a (min b cv) w (min (min v cv) R)"
  shows "bracket a b w (min v (min m R))"
proof (cases "b \<le> cv")
  case True
  with assms(3) have mc: "cv \<le> m" by (simp add: bracket_def)
  from True have b1: "min b cv = b" by (simp add: min.absorb1)
  have va: "b \<le> min v cv" using True assms(1) by simp
  have vm: "b \<le> min v m" using True mc assms(1) by simp
  from assms(5) have B: "bracket a b w (min (min v cv) R)" by (simp add: b1)
  have T: "min v (min m R) = min (min v m) R" by (simp add: min.assoc)
  show ?thesis
    unfolding T using B va vm mc assms(1,2)
    unfolding bracket_def by (auto simp: min_def split: if_splits)
next
  case False
  then have cb: "cv < b" by simp
  from assms(4) have ac: "a < cv" by simp
  from assms(3) ac cb have cm: "cv = m" by (simp add: bracket_def)
  from cb have b1: "min b cv = cv" by (simp add: min.absorb2 less_imp_le)
  have "cv \<le> v" using cb assms(1) by order
  then have vc: "min v cv = cv" by (simp add: min.absorb2)
  have T: "min v (min m R) = min cv R"
    using vc cm by (simp add: min.assoc [symmetric])
  from assms(5) have B: "bracket a cv w (min cv R)" by (simp add: b1 vc)
  show ?thesis
    unfolding T using B ac cb assms(1,2)
    unfolding bracket_def by (auto simp: min_def split: if_splits)
qed

lemma bracket_whole: "bracket NegInf PosInf w m \<Longrightarrow> w = m"
proof -
  assume b: "bracket NegInf PosInf w m"
  show ?thesis
  proof (cases w)
    case NegInf
    with b have "m \<le> NegInf" by (simp add: bracket_def)
    with NegInf show ?thesis by (cases m) auto
  next
    case (Num x)
    with b show ?thesis by (simp add: bracket_def)
  next
    case PosInf
    with b have "PosInf \<le> m" by (simp add: bracket_def)
    with PosInf show ?thesis by (cases m) auto
  qed
qed

lemma pynum_max_min_simps [simp]:
  "max NegInf v = v" "max v NegInf = v" "min PosInf v = v" "min v PosInf = v"
  by (cases v; simp add: max_def min_def)+

lemma spec_value:
  "well_formed t \<Longrightarrow>
     \<exists>w. fst (spec_evaluate pr t a b) = Some w \<and> (\<not> pr \<longrightarrow> w = minimax_value t)
       \<and> (pr \<longrightarrow> a < b \<longrightarrow> bracket a b w (minimax_value t))"
  "list_all (\<lambda>c. \<not> pruned (info c) \<and> well_formed c) cs \<Longrightarrow>
     (\<not> pr \<longrightarrow> fst (spec_children pr mx a b v best dn cs)
          = (if mx then max v (max_value cs) else min v (min_value cs)))
     \<and> (pr \<longrightarrow> a < b \<longrightarrow> (if mx then v \<le> a else b \<le> v) \<longrightarrow>
          bracket a b (fst (spec_children pr mx a b v best dn cs))
            (if mx then max v (max_value cs) else min v (min_value cs)))"
proof (induction pr t a b and pr mx a b v best dn cs rule: spec_evaluate_spec_children.induct)
  case (1 pruning f cs a b)
  show ?case
  proof (cases "cs = []")
    case True
    with 1(2) obtain x where "nvalue f = Some (Num x)" by (auto simp: is_number_iff)
    with True show ?thesis by (simp add: bracket_refl)
  next
    case False
    from 1(2) False have wf: "list_all (\<lambda>c. \<not> pruned (info c) \<and> well_formed c) cs" by simp
    let ?mx = "is_max_node f"
    let ?l = "spec_children pruning ?mx a b (if ?mx then NegInf else PosInf) None [] cs"
    from 1(1) [OF refl False wf]
    have p: "\<not> pruning \<longrightarrow> fst ?l = (if ?mx then max_value cs else min_value cs)"
      and q: "pruning \<longrightarrow> a < b \<longrightarrow>
          bracket a b (fst ?l) (if ?mx then max_value cs else min_value cs)"
      by (auto split: if_splits)
    have "fst (spec_evaluate pruning (Node f cs) a b) = Some (fst ?l)"
      using False by (cases ?l) (simp add: Let_def)
    moreover have "minimax_value (Node f cs) = (if ?mx then max_value cs else min_value cs)"
      using False by simp
    ultimately show ?thesis using p q by auto
  qed
next
  case (2 pruning is_max a b v best_edge dn)
  show ?case by (simp add: bracket_refl)
next
  case (3 pruning is_max a b v best_edge dn c rest)
  from 3(4) have np: "\<not> pruned (info c)" and wc: "well_formed c"
    and wr: "list_all (\<lambda>c. \<not> pruned (info c) \<and> well_formed c) rest" by auto
  obtain cv c' where se: "spec_evaluate pruning c a b = (cv, c')"
    by (cases "spec_evaluate pruning c a b")
  from 3(2) [OF np wc] se obtain x where cv: "cv = Some x"
    and xp: "\<not> pruning \<longrightarrow> x = minimax_value c"
    and xq: "pruning \<longrightarrow> a < b \<longrightarrow> bracket a b x (minimax_value c)"
    by auto
  define w where "w = (if is_max then max v x else min v x)"
  define better where "better = (if is_max then v < x else x < v)"
  have w_alt: "w = (if better then x else v)"
    by (auto simp: w_def better_def max_def min_def)
  let ?a1 = "if is_max then max a w else a"
  let ?b1 = "if is_max then b else min b w"
  let ?best = "if better then Some (length dn) else best_edge"
  let ?m = "minimax_value c"
  let ?T = "if is_max then max v (max_value (c # rest)) else min v (min_value (c # rest))"
  have T: "?T = (if is_max then max v (max ?m (max_value rest))
                 else min v (min ?m (min_value rest)))" by simp
  show ?case
  proof (cases "pruning \<and> ?b1 \<le> ?a1")
    case True
    then have pr: pruning by simp
    have r: "fst (spec_children pruning is_max a b v best_edge dn (c # rest)) = w"
      using np se cv True by (cases is_max; cases better) (auto simp: Let_def better_def w_alt)
    have "bracket a b w ?T" if ab: "a < b" and vv: "if is_max then v \<le> a else b \<le> v"
    proof (cases is_max)
      case mx: True
      from vv mx have va: "v \<le> a" by simp
      have "max a w = max a x" using va by (simp add: w_def mx max.assoc [symmetric] max.absorb1)
      with True mx have cut: "b \<le> max a x" by simp
      from bracket_max_cut [OF va ab _ cut, of ?m "max_value rest"] xq pr ab
      show ?thesis by (simp add: mx w_def)
    next
      case mn: False
      from vv mn have vb: "b \<le> v" by simp
      have "min b w = min b x" using vb by (simp add: w_def mn min.assoc [symmetric] min.absorb1)
      with True mn have cut: "min b x \<le> a" by simp
      from bracket_min_cut [OF vb ab _ cut, of ?m "min_value rest"] xq pr ab
      show ?thesis by (simp add: mn w_def)
    qed
    with r pr show ?thesis by simp
  next
    case False
    have e1: "(case cv of None \<Rightarrow> False | Some x \<Rightarrow> if is_max then v < x else x < v) = better"
      using cv by (simp add: better_def)
    have e2: "(case cv of None \<Rightarrow> v | Some x \<Rightarrow> if better then x else v) = w"
      using cv by (simp add: w_alt)
    from 3(3) [OF np se [symmetric] e1 [symmetric] e2 [symmetric] refl refl refl False wr]
    have ihp: "\<not> pruning \<longrightarrow> fst (spec_children pruning is_max ?a1 ?b1 w ?best (dn @ [c']) rest)
          = (if is_max then max w (max_value rest) else min w (min_value rest))"
      and ihq: "pruning \<longrightarrow> ?a1 < ?b1 \<longrightarrow> (if is_max then w \<le> ?a1 else ?b1 \<le> w) \<longrightarrow>
          bracket ?a1 ?b1 (fst (spec_children pruning is_max ?a1 ?b1 w ?best (dn @ [c']) rest))
            (if is_max then max w (max_value rest) else min w (min_value rest))"
      by auto
    have r: "spec_children pruning is_max a b v best_edge dn (c # rest)
        = spec_children pruning is_max ?a1 ?b1 w ?best (dn @ [c']) rest"
      using np se cv False by (cases is_max; cases better) (auto simp: Let_def better_def w_alt)
    have p: "\<not> pruning \<longrightarrow> fst (spec_children pruning is_max a b v best_edge dn (c # rest)) = ?T"
    proof
      assume n: "\<not> pruning"
      with ihp have "fst (spec_children pruning is_max ?a1 ?b1 w ?best (dn @ [c']) rest)
          = (if is_max then max w (max_value rest) else min w (min_value rest))" by blast
      also have "\<dots> = ?T" using xp n by (simp add: w_def max.assoc min.assoc)
      finally show "fst (spec_children pruning is_max a b v best_edge dn (c # rest)) = ?T"
        by (simp only: r)
    qed
    have q: "bracket a b (fst (spec_children pruning is_max a b v best_edge dn (c # rest))) ?T"
      if pr: pruning and ab: "a < b" and vv: "if is_max then v \<le> a else b \<le> v"
    proof (cases is_max)
      case mx: True
      from vv mx have va: "v \<le> a" by simp
      have a1: "max a w = max a x" using va by (simp add: w_def mx max.assoc [symmetric] max.absorb1)
      have "\<not> b \<le> max a w" using False pr mx by auto
      then have nocut: "max a x < b" unfolding a1 by (rule iffD1 [OF not_le])
      have A1: "?a1 = max a x" using mx a1 by simp
      have B1: "?b1 = b" using mx by simp
      have W: "(if is_max then max w (max_value rest) else min w (min_value rest))
          = max (max v x) (max_value rest)" using mx by (simp add: w_def)
      have c1: "?a1 < ?b1" unfolding A1 B1 by (rule nocut)
      have c2: "if is_max then w \<le> ?a1 else ?b1 \<le> w" using mx by simp
      have tgt: "bracket ?a1 ?b1 (fst (spec_children pruning is_max a b v best_edge dn (c # rest)))
          (if is_max then max w (max_value rest) else min w (min_value rest))"
        unfolding r using ihq pr c1 c2 by blast
      from tgt
      have "bracket (max a x) b (fst (spec_children pruning is_max a b v best_edge dn (c # rest)))
              (max (max v x) (max_value rest))"
        by (simp only: A1 B1 W)
      from bracket_max_step [OF va ab _ nocut this, of ?m] xq pr ab
      show ?thesis by (simp add: mx)
    next
      case mn: False
      from vv mn have vb: "b \<le> v" by simp
      have b1: "min b w = min b x" using vb by (simp add: w_def mn min.assoc [symmetric] min.absorb1)
      have "\<not> min b w \<le> a" using False pr mn by auto
      then have nocut: "a < min b x" unfolding b1 by (rule iffD1 [OF not_le])
      have A1: "?a1 = a" using mn by simp
      have B1: "?b1 = min b x" using mn b1 by simp
      have W: "(if is_max then max w (max_value rest) else min w (min_value rest))
          = min (min v x) (min_value rest)" using mn by (simp add: w_def)
      have c1: "?a1 < ?b1" unfolding A1 B1 by (rule nocut)
      have c2: "if is_max then w \<le> ?a1 else ?b1 \<le> w" using mn by simp
      have tgt: "bracket ?a1 ?b1 (fst (spec_children pruning is_max a b v best_edge dn (c # rest)))
          (if is_max then max w (max_value rest) else min w (min_value rest))"
        unfolding r using ihq pr c1 c2 by blast
      from tgt
      have "bracket a (min b x) (fst (spec_children pruning is_max a b v best_edge dn (c # rest)))
              (min (min v x) (min_value rest))"
        by (simp only: A1 B1 W)
      from bracket_min_step [OF vb ab _ nocut this, of ?m] xq pr ab
      show ?thesis by (simp add: mn)
    qed
    from p q show ?thesis by blast
  qed
qed

text \<open>
  Claim C2. On a tree as built from a well-formed tree file, \<^verbatim>\<open>minimax\<close> raises no error
  and does exactly what the evaluation contract says: the value, the tree with the recorded
  bounds and stored values, and, for the loop of a node started from \<open>-infinity\<close> (MAX) or
  \<open>+infinity\<close> (MIN), the best edge are those of \<open>spec_evaluate\<close> and \<open>spec_children\<close>,
  where a child replaces the best only when strictly better, so that the leftmost of equal
  children stays the best, and \<open>alpha\<close> (or \<open>beta\<close>) is updated after each child. The value
  returned by any call is the value stored on the node on exit.
\<close>

theorem minimax_evaluation_contract:
  "(well_formed t \<longrightarrow> minimax pruning t a b = Inr (spec_evaluate pruning t a b))
   \<and> (list_all (\<lambda>c. \<not> pruned (info c) \<and> well_formed c) cs \<longrightarrow>
        minimax_loop pruning is_max a b (if is_max then NegInf else PosInf) None [] cs
          = Inr (spec_children pruning is_max a b (if is_max then NegInf else PosInf) None [] cs))
   \<and> (minimax pruning t a b = Inr (r, t') \<longrightarrow> nvalue (info t') = r)"
proof (intro conjI impI)
  assume "well_formed t"
  then show "minimax pruning t a b = Inr (spec_evaluate pruning t a b)"
    using minimax_refines_spec(1) by blast
next
  assume "list_all (\<lambda>c. \<not> pruned (info c) \<and> well_formed c) cs"
  from minimax_refines_spec(2) [OF this, of None "if is_max then NegInf else PosInf" is_max
      pruning a b "[]"]
  show "minimax_loop pruning is_max a b (if is_max then NegInf else PosInf) None [] cs
          = Inr (spec_children pruning is_max a b (if is_max then NegInf else PosInf) None [] cs)"
    by (simp add: start_value_def)
next
  assume "minimax pruning t a b = Inr (r, t')"
  then show "nvalue (info t') = r"
    by (cases t) (auto simp: Let_def split: if_splits sum.splits prod.splits)
qed

lemma well_formed_example: "well_formed example_tree"
  by (simp add: example_tree_def fresh_node_def TreeNode_def)

lemma spec_evaluate_example:
  "spec_evaluate True example_tree NegInf PosInf = (Some (Num 3), example_result)"
  by (simp add: example_tree_def example_result_def fresh_node_def TreeNode_def
      set_pruned_def Let_def max_def min_def)

theorem minimax_evaluation_contract_witness:
  "well_formed example_tree
   \<and> minimax True example_tree NegInf PosInf = Inr (Some (Num 3), example_result)
   \<and> spec_evaluate True example_tree NegInf PosInf = (Some (Num 3), example_result)
   \<and> nvalue (info example_result) = Some (Num 3)"
  using minimax_evaluation_contract [of example_tree True NegInf PosInf _ _ "Some (Num 3)"
      example_result]
    well_formed_example spec_evaluate_example
  by simp

text \<open>
  Claim C1. For every tree as built from a well-formed tree file, whether or not leaf values
  repeat, the run with pruning enabled and the run with pruning disabled both return the
  plain minimax value of the tree as the root's value.
\<close>

theorem pruning_equivalence:
  "well_formed t \<Longrightarrow>
     \<exists>t1 t2. run_minimax True t = Inr (Some (minimax_value t), t1)
       \<and> run_minimax False t = Inr (Some (minimax_value t), t2)"
proof -
  assume wf: "well_formed t"
  from spec_value(1) [OF wf, of True NegInf PosInf] obtain w1 where
    1: "fst (spec_evaluate True t NegInf PosInf) = Some w1"
    and b: "bracket NegInf PosInf w1 (minimax_value t)" by auto
  from bracket_whole [OF b] have w1: "w1 = minimax_value t" .
  from spec_value(1) [OF wf, of False NegInf PosInf] have
    2: "fst (spec_evaluate False t NegInf PosInf) = Some (minimax_value t)" by auto
  from minimax_refines_spec(1) [OF wf, of True NegInf PosInf] 1 w1
  have "run_minimax True t = Inr (Some (minimax_value t), snd (spec_evaluate True t NegInf PosInf))"
    by (cases "spec_evaluate True t NegInf PosInf") (simp add: run_minimax_def)
  moreover from minimax_refines_spec(1) [OF wf, of False NegInf PosInf] 2
  have "run_minimax False t = Inr (Some (minimax_value t), snd (spec_evaluate False t NegInf PosInf))"
    by (cases "spec_evaluate False t NegInf PosInf") (simp add: run_minimax_def)
  ultimately show ?thesis by blast
qed

theorem pruning_equivalence_witness:
  "well_formed example_tree \<and> minimax_value example_tree = Num 3
   \<and> (\<exists>t1 t2. run_minimax True example_tree = Inr (Some (Num 3), t1)
         \<and> run_minimax False example_tree = Inr (Some (Num 3), t2))"
proof -
  have v: "minimax_value example_tree = Num 3"
    by (simp add: example_tree_def fresh_node_def TreeNode_def max_def min_def)
  show ?thesis
    using pruning_equivalence [OF well_formed_example] well_formed_example v by simp
qed

section \<open>The best-child routine, exactly\<close>

lemma filter_upt_snoc:
  "filter (\<lambda>j. P ((pre @ [c]) ! j)) [0..<Suc (length pre)]
     = filter (\<lambda>j. P (pre ! j)) [0..<length pre] @ (if P c then [length pre] else [])"
proof -
  have "filter (\<lambda>j. P ((pre @ [c]) ! j)) [0..<length pre]
      = filter (\<lambda>j. P (pre ! j)) [0..<length pre]"
    by (rule filter_cong) (simp_all add: nth_append)
  then show ?thesis by simp
qed

lemma best_children_loop_exact:
  assumes "list_all (\<lambda>c. visits (info c) > 0) cs"
    and "bc = filter (\<lambda>j. calculate_ucb (Some par) (info (pre ! j)) w = bv) [0..<length pre]"
    and "\<forall>j < length pre. calculate_ucb (Some par) (info (pre ! j)) w \<le> bv"
  shows "\<exists>bv'. best_children_loop par w cs (length pre) bv bc
       = Inr (filter (\<lambda>j. calculate_ucb (Some par) (info ((pre @ cs) ! j)) w = bv')
                [0..<length (pre @ cs)])
     \<and> (\<forall>j < length (pre @ cs). calculate_ucb (Some par) (info ((pre @ cs) ! j)) w \<le> bv')
     \<and> (bv' = bv \<or> (\<exists>j < length (pre @ cs).
            calculate_ucb (Some par) (info ((pre @ cs) ! j)) w = bv'))"
  using assms
proof (induction cs arbitrary: bv bc pre)
  case Nil
  then show ?case by auto
next
  case (Cons c cs)
  let ?U = "\<lambda>x. calculate_ucb (Some par) (info x) w"
  let ?u = "?U c"
  have vis: "visits (info c) \<noteq> 0" and rest: "list_all (\<lambda>c. visits (info c) > 0) cs"
    using Cons.prems(1) by auto
  have app: "(pre @ [c]) @ cs = pre @ c # cs" by simp
  have len: "length (pre @ [c]) = Suc (length pre)" by simp
  have nth_i: "(pre @ c # cs) ! length pre = c" by simp
  have ub: "\<forall>j < length (pre @ [c]). ?U ((pre @ [c]) ! j) \<le> max bv ?u"
  proof (intro allI impI)
    fix j assume "j < length (pre @ [c])"
    then consider "j < length pre" | "j = length pre" by (auto simp: less_Suc_eq)
    then show "?U ((pre @ [c]) ! j) \<le> max bv ?u"
    proof cases
      case 1
      with Cons.prems(3) have "?U (pre ! j) \<le> bv" by simp
      with 1 show ?thesis by (simp add: nth_append le_max_iff_disj)
    next
      case 2
      then show ?thesis by simp
    qed
  qed
  consider (gt) "?u > bv" | (eq) "?u = bv" | (lt) "?u < bv"
    by (metis linorder_less_linear)
  then show ?case
  proof cases
    case gt
    have none: "filter (\<lambda>j. ?U (pre ! j) = ?u) [0..<length pre] = []"
      using Cons.prems(3) gt by (auto simp: filter_empty_conv)
    have a: "[length pre] = filter (\<lambda>j. ?U ((pre @ [c]) ! j) = ?u) [0..<length (pre @ [c])]"
      unfolding len filter_upt_snoc [of "\<lambda>x. ?U x = ?u" pre c] none by simp
    have m: "max bv ?u = ?u" using gt by (simp add: max.absorb2 less_imp_le)
    from Cons.IH [OF rest a] ub m obtain bv' where
      l: "best_children_loop par w cs (length (pre @ [c])) ?u [length pre]
         = Inr (filter (\<lambda>j. ?U (((pre @ [c]) @ cs) ! j) = bv') [0..<length ((pre @ [c]) @ cs)])"
      and u: "\<forall>j < length ((pre @ [c]) @ cs). ?U (((pre @ [c]) @ cs) ! j) \<le> bv'"
      and at: "bv' = ?u \<or> (\<exists>j < length ((pre @ [c]) @ cs). ?U (((pre @ [c]) @ cs) ! j) = bv')"
      by auto
    have at': "\<exists>j < length (pre @ c # cs). ?U ((pre @ c # cs) ! j) = bv'"
    proof (cases "bv' = ?u")
      case True
      have "length pre < length (pre @ c # cs)" by simp
      with nth_i True show ?thesis by metis
    next
      case False
      with at show ?thesis unfolding app by blast
    qed
    have "best_children_loop par w (c # cs) (length pre) bv bc
        = best_children_loop par w cs (length (pre @ [c])) ?u [length pre]"
      using vis gt by (simp add: Let_def)
    with l u at' show ?thesis unfolding app by auto
  next
    case eq
    have a: "bc @ [length pre]
        = filter (\<lambda>j. ?U ((pre @ [c]) ! j) = bv) [0..<length (pre @ [c])]"
      unfolding len filter_upt_snoc [of "\<lambda>x. ?U x = bv" pre c] using Cons.prems(2) eq by simp
    have m: "max bv ?u = bv" using eq by simp
    from Cons.IH [OF rest a] ub m obtain bv' where
      l: "best_children_loop par w cs (length (pre @ [c])) bv (bc @ [length pre])
         = Inr (filter (\<lambda>j. ?U (((pre @ [c]) @ cs) ! j) = bv') [0..<length ((pre @ [c]) @ cs)])"
      and u: "\<forall>j < length ((pre @ [c]) @ cs). ?U (((pre @ [c]) @ cs) ! j) \<le> bv'"
      and at: "bv' = bv \<or> (\<exists>j < length ((pre @ [c]) @ cs). ?U (((pre @ [c]) @ cs) ! j) = bv')"
      by auto
    have "best_children_loop par w (c # cs) (length pre) bv bc
        = best_children_loop par w cs (length (pre @ [c])) bv (bc @ [length pre])"
      using vis eq by (simp add: Let_def)
    with l u at show ?thesis unfolding app by auto
  next
    case lt
    have a: "bc = filter (\<lambda>j. ?U ((pre @ [c]) ! j) = bv) [0..<length (pre @ [c])]"
      unfolding len filter_upt_snoc [of "\<lambda>x. ?U x = bv" pre c] using Cons.prems(2) lt by simp
    have m: "max bv ?u = bv" using lt by (simp add: max.absorb1 less_imp_le)
    from Cons.IH [OF rest a] ub m obtain bv' where
      l: "best_children_loop par w cs (length (pre @ [c])) bv bc
         = Inr (filter (\<lambda>j. ?U (((pre @ [c]) @ cs) ! j) = bv') [0..<length ((pre @ [c]) @ cs)])"
      and u: "\<forall>j < length ((pre @ [c]) @ cs). ?U (((pre @ [c]) @ cs) ! j) \<le> bv'"
      and at: "bv' = bv \<or> (\<exists>j < length ((pre @ [c]) @ cs). ?U (((pre @ [c]) @ cs) ! j) = bv')"
      by auto
    have nl: "\<not> bv < ?u" "?u \<noteq> bv" using lt by auto
    have "best_children_loop par w (c # cs) (length pre) bv bc
        = best_children_loop par w cs (length (pre @ [c])) bv bc"
      using vis nl by (simp add: Let_def)
    with l u at show ?thesis unfolding app by auto
  qed
qed

lemma best_children_loop_best_indices:
  assumes "children n \<noteq> []" and "list_all (\<lambda>c. visits (info c) > 0) (children n)"
  shows "best_children_loop (info n) w (children n) 0 NegInf [] = Inr (best_indices n w)"
    and "best_indices n w \<noteq> []"
proof -
  let ?U = "\<lambda>x. calculate_ucb (Some (info n)) (info x) w"
  let ?cs = "children n"
  from best_children_loop_exact [OF assms(2), of "[]" "info n" "[]" w NegInf]
  obtain bv' where
    l: "best_children_loop (info n) w ?cs 0 NegInf []
        = Inr (filter (\<lambda>j. ?U (?cs ! j) = bv') [0..<length ?cs])"
    and u: "\<forall>j < length ?cs. ?U (?cs ! j) \<le> bv'"
    and at: "bv' = NegInf \<or> (\<exists>j < length ?cs. ?U (?cs ! j) = bv')"
    by auto
  have "0 < length ?cs" using assms(1) by simp
  with u have "?U (?cs ! 0) \<le> bv'" by blast
  with calculate_ucb_gt_NegInf [of "Some (info n)" "info (?cs ! 0)" w]
  have "bv' \<noteq> NegInf" by auto
  with at obtain j0 where j0: "j0 < length ?cs" "?U (?cs ! j0) = bv'" by blast
  have eqv: "list_all (\<lambda>c. ?U c \<le> ?U (?cs ! j)) ?cs = (?U (?cs ! j) = bv')"
    if "j < length ?cs" for j
  proof
    assume "list_all (\<lambda>c. ?U c \<le> ?U (?cs ! j)) ?cs"
    with j0 have "bv' \<le> ?U (?cs ! j)" by (auto simp: list_all_length)
    with u that show "?U (?cs ! j) = bv'" by (simp add: antisym)
  next
    assume "?U (?cs ! j) = bv'"
    with u show "list_all (\<lambda>c. ?U c \<le> ?U (?cs ! j)) ?cs" by (simp add: list_all_length)
  qed
  have f: "best_indices n w = filter (\<lambda>j. ?U (?cs ! j) = bv') [0..<length ?cs]"
    unfolding best_indices_def by (rule filter_cong) (simp_all add: eqv)
  with l show "best_children_loop (info n) w (children n) 0 NegInf [] = Inr (best_indices n w)"
    by simp
  from j0 have "j0 \<in> set (filter (\<lambda>j. ?U (?cs ! j) = bv') [0..<length ?cs])" by simp
  with f show "best_indices n w \<noteq> []" by (metis empty_iff empty_set)
qed

lemma get_best_child_visited_exact:
  assumes "children n \<noteq> []" and "list_all (\<lambda>c. visits (info c) > 0) (children n)"
  shows "get_best_child g n w
     = Inr (best_indices n w ! (g 0 mod length (best_indices n w)), \<lambda>k. g (Suc k))"
  using best_children_loop_best_indices [OF assms, of w]
  by (simp add: get_best_child_def random_choice_def next_draw_def)

lemma best_indices_range: "i \<in> set (best_indices n w) \<Longrightarrow> i < length (children n)"
  by (simp add: best_indices_def)

text \<open>
  Claim C3, as amended. \<^verbatim>\<open>get_best_child\<close> (for every exploration weight, so for 0 at the
  root too) returns the first child in order that has no visits as soon as one exists,
  whether or not other children have visits, and consumes no random draw for it. Only when
  the node has children and every child has visits is the result a child with visits: the
  element that \<^verbatim>\<open>random.choice\<close> draws, uniformly, from the list of the children whose score
  is maximal (the element at the drawn index, the draw taken below the length of that list).
\<close>

theorem get_best_child_first_unvisited:
  "(list_ex (\<lambda>c. visits (info c) = 0) (children n) \<longrightarrow>
      (\<exists>i. get_best_child g n w = Inr (i, g) \<and> i < length (children n)
         \<and> visits (info (children n ! i)) = 0
         \<and> (\<forall>j < i. visits (info (children n ! j)) \<noteq> 0)))
   \<and> (children n \<noteq> [] \<and> list_all (\<lambda>c. visits (info c) > 0) (children n) \<longrightarrow>
        best_indices n w \<noteq> []
        \<and> get_best_child g n w
            = Inr (best_indices n w ! (g 0 mod length (best_indices n w)), \<lambda>k. g (Suc k))
        \<and> (\<forall>i \<in> set (best_indices n w).
              i < length (children n) \<and> visits (info (children n ! i)) > 0))"
proof (intro conjI impI)
  assume a: "list_ex (\<lambda>c. visits (info c) = 0) (children n)"
  let ?i = "length (takeWhile (\<lambda>c. visits (info c) \<noteq> 0) (children n))"
  from a have "list_ex (\<lambda>c. \<not> visits (info c) \<noteq> 0) (children n)" by simp
  from takeWhile_stops [OF this]
  have lt: "?i < length (children n)"
    and z: "visits (info (children n ! ?i)) = 0"
    and b: "\<forall>j < ?i. visits (info (children n ! j)) \<noteq> 0"
    by auto
  from get_best_child_unvisited [OF a] lt z b
  show "\<exists>i. get_best_child g n w = Inr (i, g) \<and> i < length (children n)
         \<and> visits (info (children n ! i)) = 0
         \<and> (\<forall>j < i. visits (info (children n ! j)) \<noteq> 0)" by blast
next
  assume a: "children n \<noteq> [] \<and> list_all (\<lambda>c. visits (info c) > 0) (children n)"
  then have 1: "children n \<noteq> []" and 2: "list_all (\<lambda>c. visits (info c) > 0) (children n)"
    by auto
  show "best_indices n w \<noteq> []"
    by (rule best_children_loop_best_indices(2) [OF 1 2])
  show "get_best_child g n w
      = Inr (best_indices n w ! (g 0 mod length (best_indices n w)), \<lambda>k. g (Suc k))"
    by (rule get_best_child_visited_exact [OF 1 2])
  show "\<forall>i \<in> set (best_indices n w). i < length (children n) \<and> visits (info (children n ! i)) > 0"
    using 2 by (auto simp: best_indices_def list_all_length)
qed

theorem get_best_child_first_unvisited_witness:
  "list_ex (\<lambda>c. visits (info c) = 0)
      (children (mcts_root 2 2 [mcts_leaf ''a'' 1 1 1, mcts_leaf ''b'' 0 0 0]))
   \<and> (\<exists>i. get_best_child (\<lambda>k. 0) (mcts_root 2 2 [mcts_leaf ''a'' 1 1 1, mcts_leaf ''b'' 0 0 0]) 0
            = Inr (i, \<lambda>k. 0)
         \<and> visits (info (children (mcts_root 2 2 [mcts_leaf ''a'' 1 1 1, mcts_leaf ''b'' 0 0 0]) ! i)) = 0)
   \<and> list_all (\<lambda>c. visits (info c) > 0)
      (children (mcts_root 3 2 [mcts_leaf ''a'' 1 1 1, mcts_leaf ''b'' 1 1 1]))
   \<and> best_indices (mcts_root 3 2 [mcts_leaf ''a'' 1 1 1, mcts_leaf ''b'' 1 1 1]) 0 = [0, 1]
   \<and> get_best_child (\<lambda>k. 1) (mcts_root 3 2 [mcts_leaf ''a'' 1 1 1, mcts_leaf ''b'' 1 1 1]) 0
        = Inr (1, \<lambda>k. 1)"
proof -
  have h1: "list_ex (\<lambda>c. visits (info c) = 0)
      (children (mcts_root 2 2 [mcts_leaf ''a'' 1 1 1, mcts_leaf ''b'' 0 0 0]))"
    by (simp add: mcts_root_def mcts_leaf_def)
  have h2: "children (mcts_root 3 2 [mcts_leaf ''a'' 1 1 1, mcts_leaf ''b'' 1 1 1]) \<noteq> []
     \<and> list_all (\<lambda>c. visits (info c) > 0)
      (children (mcts_root 3 2 [mcts_leaf ''a'' 1 1 1, mcts_leaf ''b'' 1 1 1]))"
    by (simp add: mcts_root_def mcts_leaf_def)
  have b: "best_indices (mcts_root 3 2 [mcts_leaf ''a'' 1 1 1, mcts_leaf ''b'' 1 1 1]) 0 = [0, 1]"
    by (simp add: best_indices_def mcts_root_def mcts_leaf_def TreeNode_def calculate_ucb_def
        upt_rec [of 0] upt_rec [of 1])
  show ?thesis
    using h1 h2 b
      get_best_child_first_unvisited
        [of "mcts_root 2 2 [mcts_leaf ''a'' 1 1 1, mcts_leaf ''b'' 0 0 0]" "\<lambda>k. 0" 0]
      get_best_child_first_unvisited
        [of "mcts_root 3 2 [mcts_leaf ''a'' 1 1 1, mcts_leaf ''b'' 1 1 1]" "\<lambda>k. 1" 0]
    by auto
qed

text \<open>
  Claim C3 as stated fails in a state that a run reaches: after two iterations on a root
  with two leaves the first child has a visit and the second has none, and the routine,
  called with exploration weight 0, returns the second.
\<close>

theorem get_best_child_returns_unvisited:
  "mcts_iterate 1.4 2 (mcts_root 0 0 [mcts_leaf ''a'' 1 0 0, mcts_leaf ''b'' 0 0 0], \<lambda>k. 0)
     = Inr (mcts_root 2 2 [mcts_leaf ''a'' 1 1 1, mcts_leaf ''b'' 0 0 0], \<lambda>k. 0)
   \<and> visits (info (children (mcts_root 2 2 [mcts_leaf ''a'' 1 1 1, mcts_leaf ''b'' 0 0 0]) ! 0)) > 0
   \<and> get_best_child (\<lambda>k. 0) (mcts_root 2 2 [mcts_leaf ''a'' 1 1 1, mcts_leaf ''b'' 0 0 0]) 0
       = Inr (1, \<lambda>k. 0)
   \<and> visits (info (children (mcts_root 2 2 [mcts_leaf ''a'' 1 1 1, mcts_leaf ''b'' 0 0 0]) ! 1)) = 0"
proof -
  have i1: "mcts_iteration 1.4 (mcts_root 0 0 [mcts_leaf ''a'' 1 0 0, mcts_leaf ''b'' 0 0 0], \<lambda>k. 0)
      = Inr (mcts_root 1 1 [mcts_leaf ''a'' 1 0 0, mcts_leaf ''b'' 0 0 0], \<lambda>k. 0)"
    by (simp add: mcts_iteration_def mcts_selection.simps expansion_phase_def
        mcts_simulation.simps mcts_backpropagation.simps mcts_root_def mcts_leaf_def
        TreeNode_def next_draw_def backprop_update_def)
  have i2: "mcts_iteration 1.4 (mcts_root 1 1 [mcts_leaf ''a'' 1 0 0, mcts_leaf ''b'' 0 0 0], \<lambda>k. 0)
      = Inr (mcts_root 2 2 [mcts_leaf ''a'' 1 1 1, mcts_leaf ''b'' 0 0 0], \<lambda>k. 0)"
    by (simp add: mcts_iteration_def mcts_selection.simps expansion_phase_def
        mcts_expansion_def mcts_simulation.simps mcts_backpropagation.simps mcts_root_def
        mcts_leaf_def TreeNode_def next_draw_def backprop_update_def
        upt_rec [of 0] upt_rec [of 1])
  have it: "mcts_iterate 1.4 2 (mcts_root 0 0 [mcts_leaf ''a'' 1 0 0, mcts_leaf ''b'' 0 0 0], \<lambda>k. 0)
     = Inr (mcts_root 2 2 [mcts_leaf ''a'' 1 1 1, mcts_leaf ''b'' 0 0 0], \<lambda>k. 0)"
    using i1 i2 by (simp add: numeral_2_eq_2)
  have r: "visits (info (children (mcts_root 2 2 [mcts_leaf ''a'' 1 1 1, mcts_leaf ''b'' 0 0 0]) ! 0)) > 0
   \<and> get_best_child (\<lambda>k. 0) (mcts_root 2 2 [mcts_leaf ''a'' 1 1 1, mcts_leaf ''b'' 0 0 0]) 0
       = Inr (1, \<lambda>k. 0)
   \<and> visits (info (children (mcts_root 2 2 [mcts_leaf ''a'' 1 1 1, mcts_leaf ''b'' 0 0 0]) ! 1)) = 0"
    by (simp add: mcts_root_def mcts_leaf_def TreeNode_def get_best_child_def calculate_ucb_def)
  from it r show ?thesis by simp
qed

text \<open>With every child unvisited the first child is returned and no draw is consumed.\<close>

lemma get_best_child_all_unvisited_first:
  "get_best_child (\<lambda>k. k) (mcts_root 0 0 [mcts_leaf ''a'' 1 0 0, mcts_leaf ''b'' 0 0 0]) 0
       = Inr (0, \<lambda>k. k)"
  by (simp add: mcts_root_def mcts_leaf_def TreeNode_def get_best_child_def calculate_ucb_def)

section \<open>The phases of an iteration\<close>

lemma mcts_selection_node:
  "mcts_selection g t w = Inr (sel, sn, g1) \<Longrightarrow> node_at t sel = Some sn"
  using mcts_selection_total [of g t w] by auto

lemma mcts_expansion_exact:
  "mcts_expansion g n =
     (if unvisited_children n \<noteq> []
      then (Some (unvisited_children n ! (g 0 mod length (unvisited_children n))),
            \<lambda>k. g (Suc k))
      else (None, g))"
  by (simp add: mcts_expansion_def unvisited_children_def Let_def next_draw_def del: upt.simps)

lemma expansion_phase_index:
  "expansion_phase g n = (Some i, g') \<Longrightarrow> i < length (children n)"
  using mcts_expansion_index [of g n i g']
  by (auto simp: expansion_phase_def split: if_splits)

lemma mcts_iteration_phases:
  assumes "mcts_selection g t w = Inr (sel, sn, g1)"
    and "expansion_phase g1 sn = (choice, g2)"
    and "mcts_simulation g2 (case choice of None \<Rightarrow> sn | Some i \<Rightarrow> children sn ! i) = (result, g3)"
  shows "mcts_iteration w (t, g)
      = Inr (mcts_backpropagation t
               (Some (case choice of None \<Rightarrow> sel | Some i \<Rightarrow> sel @ [i])) result, g3)"
    and "node_at t (case choice of None \<Rightarrow> sel | Some i \<Rightarrow> sel @ [i])
      = Some (case choice of None \<Rightarrow> sn | Some i \<Rightarrow> children sn ! i)"
proof -
  show "mcts_iteration w (t, g)
      = Inr (mcts_backpropagation t
               (Some (case choice of None \<Rightarrow> sel | Some i \<Rightarrow> sel @ [i])) result, g3)"
    using assms by (simp add: mcts_iteration_def Let_def)
  from mcts_selection_node [OF assms(1)] have s: "node_at t sel = Some sn" .
  show "node_at t (case choice of None \<Rightarrow> sel | Some i \<Rightarrow> sel @ [i])
      = Some (case choice of None \<Rightarrow> sn | Some i \<Rightarrow> children sn ! i)"
  proof (cases choice)
    case None
    with s show ?thesis by simp
  next
    case (Some i)
    with assms(2) have "i < length (children sn)" by (auto dest: expansion_phase_index)
    with node_at_append [OF s, of "[i]"] Some show ?thesis by simp
  qed
qed


text \<open>
  Claim C4, as amended. In every iteration the expansion routine runs only when the node
  returned by selection has visits and children. If that node has visits and the list of its
  children without visits is not empty, the expansion node is the element of that list that
  \<^verbatim>\<open>random.choice\<close> draws: the element at the drawn index, so each child without visits
  (the list has no repetitions) is chosen with the same chance. If the selected node has no
  visits, or no child without visits, the expansion node is the selected node itself and no
  draw is consumed. The iteration then simulates from the expansion node and backpropagates
  the result from it; the shape of the tree never changes.
\<close>

theorem expansion_phase_contract:
  "(visits (info sn) > 0 \<and> unvisited_children sn \<noteq> [] \<longrightarrow>
      expansion_phase g sn
        = (Some (unvisited_children sn ! (g 0 mod length (unvisited_children sn))),
           \<lambda>k. g (Suc k)))
   \<and> (visits (info sn) = 0 \<or> unvisited_children sn = [] \<longrightarrow> expansion_phase g sn = (None, g))
   \<and> set (unvisited_children sn)
        = {i. i < length (children sn) \<and> visits (info (children sn ! i)) = 0}
   \<and> distinct (unvisited_children sn)
   \<and> (\<exists>sel sn' g1. mcts_selection g t w = Inr (sel, sn', g1))
   \<and> (mcts_selection g t w = Inr (sel, sn', g1) \<and> expansion_phase g1 sn' = (choice, g2)
        \<and> mcts_simulation g2 (case choice of None \<Rightarrow> sn' | Some i \<Rightarrow> children sn' ! i)
            = (result, g3)
       \<longrightarrow> mcts_iteration w (t, g)
             = Inr (mcts_backpropagation t
                      (Some (case choice of None \<Rightarrow> sel | Some i \<Rightarrow> sel @ [i])) result, g3)
           \<and> node_at t (case choice of None \<Rightarrow> sel | Some i \<Rightarrow> sel @ [i])
               = Some (case choice of None \<Rightarrow> sn' | Some i \<Rightarrow> children sn' ! i)
           \<and> shape (mcts_backpropagation t
                      (Some (case choice of None \<Rightarrow> sel | Some i \<Rightarrow> sel @ [i])) result)
               = shape t)"
proof (intro conjI impI)
  assume a: "visits (info sn) > 0 \<and> unvisited_children sn \<noteq> []"
  then have "children sn \<noteq> []" by (auto simp: unvisited_children_def)
  with a show "expansion_phase g sn
        = (Some (unvisited_children sn ! (g 0 mod length (unvisited_children sn))),
           \<lambda>k. g (Suc k))"
    by (simp add: expansion_phase_def mcts_expansion_exact)
next
  assume "visits (info sn) = 0 \<or> unvisited_children sn = []"
  then show "expansion_phase g sn = (None, g)"
    by (auto simp: expansion_phase_def mcts_expansion_exact)
next
  show "set (unvisited_children sn)
        = {i. i < length (children sn) \<and> visits (info (children sn ! i)) = 0}"
    by (auto simp: unvisited_children_def)
  show "distinct (unvisited_children sn)"
    by (simp add: unvisited_children_def)
  show "\<exists>sel sn' g1. mcts_selection g t w = Inr (sel, sn', g1)"
    using mcts_selection_total [of g t w] by blast
next
  assume a: "mcts_selection g t w = Inr (sel, sn', g1) \<and> expansion_phase g1 sn' = (choice, g2)
        \<and> mcts_simulation g2 (case choice of None \<Rightarrow> sn' | Some i \<Rightarrow> children sn' ! i)
            = (result, g3)"
  then have 1: "mcts_selection g t w = Inr (sel, sn', g1)"
    and 2: "expansion_phase g1 sn' = (choice, g2)"
    and 3: "mcts_simulation g2 (case choice of None \<Rightarrow> sn' | Some i \<Rightarrow> children sn' ! i)
            = (result, g3)" by auto
  show "mcts_iteration w (t, g)
             = Inr (mcts_backpropagation t
                      (Some (case choice of None \<Rightarrow> sel | Some i \<Rightarrow> sel @ [i])) result, g3)"
    by (rule mcts_iteration_phases(1) [OF 1 2 3])
  show "node_at t (case choice of None \<Rightarrow> sel | Some i \<Rightarrow> sel @ [i])
               = Some (case choice of None \<Rightarrow> sn' | Some i \<Rightarrow> children sn' ! i)"
    by (rule mcts_iteration_phases(2) [OF 1 2 3])
  show "shape (mcts_backpropagation t
                      (Some (case choice of None \<Rightarrow> sel | Some i \<Rightarrow> sel @ [i])) result)
               = shape t"
    by (rule shape_backpropagation)
qed

lemma selection_second_iteration:
  "mcts_selection (\<lambda>k. 1) (mcts_root 1 1 [mcts_leaf ''a'' 1 0 0, mcts_leaf ''b'' 0 0 0]) 1.4
     = Inr ([], mcts_root 1 1 [mcts_leaf ''a'' 1 0 0, mcts_leaf ''b'' 0 0 0], \<lambda>k. 1)"
  by (simp add: mcts_selection.simps mcts_root_def mcts_leaf_def TreeNode_def)

theorem expansion_phase_contract_witness:
  "visits (info (mcts_root 1 1 [mcts_leaf ''a'' 1 0 0, mcts_leaf ''b'' 0 0 0])) > 0
   \<and> unvisited_children (mcts_root 1 1 [mcts_leaf ''a'' 1 0 0, mcts_leaf ''b'' 0 0 0]) = [0, 1]
   \<and> expansion_phase (\<lambda>k. 1) (mcts_root 1 1 [mcts_leaf ''a'' 1 0 0, mcts_leaf ''b'' 0 0 0])
       = (Some 1, \<lambda>k. 1)
   \<and> mcts_iteration 1.4 (mcts_root 1 1 [mcts_leaf ''a'' 1 0 0, mcts_leaf ''b'' 0 0 0], \<lambda>k. 1)
       = Inr (mcts_backpropagation
                (mcts_root 1 1 [mcts_leaf ''a'' 1 0 0, mcts_leaf ''b'' 0 0 0]) (Some [1]) (Num 0),
              \<lambda>k. 1)"
proof -
  let ?t = "mcts_root 1 1 [mcts_leaf ''a'' 1 0 0, mcts_leaf ''b'' 0 0 0]"
  have v: "visits (info ?t) > 0" by (simp add: mcts_root_def)
  have u: "unvisited_children ?t = [0, 1]"
    by (simp add: unvisited_children_def mcts_root_def mcts_leaf_def upt_rec [of 0] upt_rec [of 1])
  have s: "mcts_simulation (\<lambda>k. 1) (children ?t ! 1) = (Num 0, \<lambda>k. 1)"
    by (simp add: mcts_simulation.simps mcts_root_def mcts_leaf_def TreeNode_def)
  from expansion_phase_contract [of ?t "\<lambda>k. 1"] v u
  have e: "expansion_phase (\<lambda>k. 1) ?t = (Some 1, \<lambda>k. 1)" by simp
  from expansion_phase_contract
    [where t = ?t and g = "\<lambda>k. 1" and w = "1.4" and sel = "[]" and sn' = ?t and ?g1.0 = "\<lambda>k. 1"
       and choice = "Some 1" and ?g2.0 = "\<lambda>k. 1" and result = "Num 0" and ?g3.0 = "\<lambda>k. 1"]
    selection_second_iteration e s
  have "mcts_iteration 1.4 (?t, \<lambda>k. 1)
       = Inr (mcts_backpropagation ?t (Some [1]) (Num 0), \<lambda>k. 1)" by simp
  with v u e show ?thesis by simp
qed

text \<open>
  Claim C4 as stated fails in the first iteration on a freshly built tree: selection returns
  the root, the root has a child without visits, and the expansion node is the root itself.
\<close>

theorem expansion_skipped_at_unvisited_root:
  "build_tree (RootData (JNode (Some ''r'') None [JNode (Some ''a'') (Some 1) []]))
     = Inr (Some (mcts_root 0 0 [mcts_leaf ''a'' 1 0 0]))
   \<and> mcts_selection (\<lambda>k. 0) (mcts_root 0 0 [mcts_leaf ''a'' 1 0 0]) 1.4
     = Inr ([], mcts_root 0 0 [mcts_leaf ''a'' 1 0 0], \<lambda>k. 0)
   \<and> list_ex (\<lambda>c. visits (info c) = 0) (children (mcts_root 0 0 [mcts_leaf ''a'' 1 0 0]))
   \<and> expansion_phase (\<lambda>k. 0) (mcts_root 0 0 [mcts_leaf ''a'' 1 0 0]) = (None, \<lambda>k. 0)"
  by (simp add: mcts_root_def mcts_leaf_def TreeNode_def mcts_selection.simps expansion_phase_def)

text \<open>
  Claim C7. Backpropagation from the node at position \<open>p\<close> changes exactly the nodes on the
  way from \<open>p\<close> up to the root (the positions that are prefixes of \<open>p\<close>): each gets one more
  visit, and one more win if and only if the result equals 1; every other node keeps its
  fields. Every iteration is this backpropagation, started at its expansion node with the
  result of its simulation. Hence \<open>wins \<le> visits\<close>, and \<open>wins = 0\<close> where \<open>visits = 0\<close>,
  hold at every node after any number of iterations, started from a tree where they hold,
  as the reset tree of a run does.
\<close>

theorem backpropagation_counters:
  "(\<forall>q. fields_at (mcts_backpropagation t (Some p) r) q =
        (if prefix q p then map_option (backprop_update r) (fields_at t q) else fields_at t q))
   \<and> visits (backprop_update r f) = visits f + 1
   \<and> wins (backprop_update r f) = wins f + (if r = Num 1 then 1 else 0)
   \<and> (\<exists>sel sn g1. mcts_selection g t w = Inr (sel, sn, g1))
   \<and> (mcts_selection g t w = Inr (sel, sn, g1) \<and> expansion_phase g1 sn = (choice, g2)
        \<and> mcts_simulation g2 (case choice of None \<Rightarrow> sn | Some i \<Rightarrow> children sn ! i)
            = (result, g3)
       \<longrightarrow> mcts_iteration w (t, g)
             = Inr (mcts_backpropagation t
                      (Some (case choice of None \<Rightarrow> sel | Some i \<Rightarrow> sel @ [i])) result, g3)
           \<and> node_at t (case choice of None \<Rightarrow> sel | Some i \<Rightarrow> sel @ [i])
               = Some (case choice of None \<Rightarrow> sn | Some i \<Rightarrow> children sn ! i))
   \<and> (counters_ok t \<longrightarrow>
        (\<exists>t' g'. mcts_iterate w k (t, g) = Inr (t', g')
           \<and> (\<forall>f \<in> set (all_fields t'). wins f \<le> visits f \<and> (visits f = 0 \<longrightarrow> wins f = 0))))
   \<and> (build_tree td = Inr (Some t) \<longrightarrow> counters_ok (reset_statistics t))"
proof (intro conjI impI allI)
  fix q
  show "fields_at (mcts_backpropagation t (Some p) r) q =
        (if prefix q p then map_option (backprop_update r) (fields_at t q) else fields_at t q)"
    by (simp add: fields_at_backpropagation)
next
  show "visits (backprop_update r f) = visits f + 1"
    and "wins (backprop_update r f) = wins f + (if r = Num 1 then 1 else 0)"
    by (simp_all add: backprop_update_counters)
next
  show "\<exists>sel sn g1. mcts_selection g t w = Inr (sel, sn, g1)"
    using mcts_selection_total [of g t w] by blast
next
  assume a: "mcts_selection g t w = Inr (sel, sn, g1) \<and> expansion_phase g1 sn = (choice, g2)
        \<and> mcts_simulation g2 (case choice of None \<Rightarrow> sn | Some i \<Rightarrow> children sn ! i)
            = (result, g3)"
  then have 1: "mcts_selection g t w = Inr (sel, sn, g1)"
    and 2: "expansion_phase g1 sn = (choice, g2)"
    and 3: "mcts_simulation g2 (case choice of None \<Rightarrow> sn | Some i \<Rightarrow> children sn ! i)
            = (result, g3)" by auto
  show "mcts_iteration w (t, g)
             = Inr (mcts_backpropagation t
                      (Some (case choice of None \<Rightarrow> sel | Some i \<Rightarrow> sel @ [i])) result, g3)"
    by (rule mcts_iteration_phases(1) [OF 1 2 3])
  show "node_at t (case choice of None \<Rightarrow> sel | Some i \<Rightarrow> sel @ [i])
               = Some (case choice of None \<Rightarrow> sn | Some i \<Rightarrow> children sn ! i)"
    by (rule mcts_iteration_phases(2) [OF 1 2 3])
next
  assume "counters_ok t"
  from mcts_iterate_counters_ok [OF this, of w k g] obtain t' g' where
    r: "mcts_iterate w k (t, g) = Inr (t', g')" "counters_ok t'" by blast
  from r(2) have "\<forall>f \<in> set (all_fields t'). wins f \<le> visits f \<and> (visits f = 0 \<longrightarrow> wins f = 0)"
    by (auto simp: counters_ok_def list_all_iff)
  with r(1) show "\<exists>t' g'. mcts_iterate w k (t, g) = Inr (t', g')
           \<and> (\<forall>f \<in> set (all_fields t'). wins f \<le> visits f \<and> (visits f = 0 \<longrightarrow> wins f = 0))"
    by blast
next
  assume "build_tree td = Inr (Some t)"
  then obtain j where "build_subtree j 0 True = Inr t"
    by (cases td) (auto split: sum.splits)
  from build_subtree_unvisited(1) [OF this]
  show "counters_ok (reset_statistics t)"
    by (simp add: unvisited_counters_ok counters_ok_reset_statistics)
qed

theorem backpropagation_counters_witness:
  "counters_ok (mcts_root 1 1 [mcts_leaf ''a'' 1 0 0, mcts_leaf ''b'' 0 0 0])
   \<and> (\<exists>t' g'. mcts_iterate 1.4 3
          (mcts_root 1 1 [mcts_leaf ''a'' 1 0 0, mcts_leaf ''b'' 0 0 0], \<lambda>k. 1) = Inr (t', g')
         \<and> (\<forall>f \<in> set (all_fields t'). wins f \<le> visits f \<and> (visits f = 0 \<longrightarrow> wins f = 0)))
   \<and> mcts_iteration 1.4 (mcts_root 1 1 [mcts_leaf ''a'' 1 0 0, mcts_leaf ''b'' 0 0 0], \<lambda>k. 1)
       = Inr (mcts_backpropagation
                (mcts_root 1 1 [mcts_leaf ''a'' 1 0 0, mcts_leaf ''b'' 0 0 0]) (Some [1]) (Num 0),
              \<lambda>k. 1)
   \<and> mcts_backpropagation
        (mcts_root 1 1 [mcts_leaf ''a'' 1 0 0, mcts_leaf ''b'' 0 0 0]) (Some [1]) (Num 0)
       = mcts_root 2 1 [mcts_leaf ''a'' 1 0 0, mcts_leaf ''b'' 0 1 0]
   \<and> build_tree (RootData (JNode (Some ''r'') None [JNode (Some ''a'') (Some 1) []]))
       = Inr (Some (mcts_root 0 0 [mcts_leaf ''a'' 1 0 0]))
   \<and> counters_ok (reset_statistics (mcts_root 0 0 [mcts_leaf ''a'' 1 0 0]))"
proof -
  let ?t = "mcts_root 1 1 [mcts_leaf ''a'' 1 0 0, mcts_leaf ''b'' 0 0 0]"
  have h1: "counters_ok ?t"
    by (simp add: counters_ok_def mcts_root_def mcts_leaf_def)
  have h2: "build_tree (RootData (JNode (Some ''r'') None [JNode (Some ''a'') (Some 1) []]))
       = Inr (Some (mcts_root 0 0 [mcts_leaf ''a'' 1 0 0]))"
    by (simp add: mcts_root_def mcts_leaf_def TreeNode_def)
  have e: "expansion_phase (\<lambda>k. 1) ?t = (Some 1, \<lambda>k. 1)"
    by (simp add: expansion_phase_def mcts_expansion_def next_draw_def mcts_root_def
        mcts_leaf_def upt_rec [of 0] upt_rec [of 1])
  have s: "mcts_simulation (\<lambda>k. 1) (children ?t ! 1) = (Num 0, \<lambda>k. 1)"
    by (simp add: mcts_simulation.simps mcts_root_def mcts_leaf_def TreeNode_def)
  have b: "mcts_backpropagation ?t (Some [1]) (Num 0)
       = mcts_root 2 1 [mcts_leaf ''a'' 1 0 0, mcts_leaf ''b'' 0 1 0]"
    by (simp add: mcts_backpropagation.simps backprop_update_def mcts_root_def mcts_leaf_def
        TreeNode_def)
  from backpropagation_counters
    [where t = ?t and g = "\<lambda>k. 1" and w = "1.4" and sel = "[]" and sn = ?t and ?g1.0 = "\<lambda>k. 1"
       and choice = "Some 1" and ?g2.0 = "\<lambda>k. 1" and result = "Num 0" and ?g3.0 = "\<lambda>k. 1"]
    selection_second_iteration e s
  have i: "mcts_iteration 1.4 (?t, \<lambda>k. 1)
       = Inr (mcts_backpropagation ?t (Some [1]) (Num 0), \<lambda>k. 1)" by simp
  show ?thesis
    using h1 h2 i b
      backpropagation_counters [where t = ?t and w = "1.4" and g = "\<lambda>k. 1" and k = 3]
      backpropagation_counters [where t = "mcts_root 0 0 [mcts_leaf ''a'' 1 0 0]"
        and td = "RootData (JNode (Some ''r'') None [JNode (Some ''a'') (Some 1) []])"]
    by simp
qed

lemma run_mcts_final_report:
  "run_mcts cfg g t =
     (case mcts_iterate (case exploration_weight cfg of None \<Rightarrow> 1.4 | Some x \<Rightarrow> x)
             (nat (case mcts_iterations cfg of None \<Rightarrow> 10 | Some n \<Rightarrow> n))
             (reset_statistics t, g) of
        Inl e \<Rightarrow> Inl e
      | Inr (t1, g1) \<Rightarrow> final_report g1 t1)"
  by (simp add: run_mcts_def final_report_def Let_def split: sum.splits)

text \<open>
  Claim C9, as amended. \<^verbatim>\<open>run_mcts\<close> checks no configuration value and never raises
  \<open>ConfigError\<close>: it runs the configured number of iterations (none for a number below 1)
  with the configured exploration weight, negative or not, and then makes its final
  recommendation on the tree the iterations left. With \<open>mcts_iterations < 1\<close> the loop body
  is not entered, so the final recommendation is made on the tree as the reset left it: no
  node statistics are modified by the search.
\<close>

theorem run_mcts_no_config_check:
  "run_mcts cfg g t \<noteq> Inl ConfigError
   \<and> (mcts_iterations cfg = Some n \<and> exploration_weight cfg = Some x \<longrightarrow>
        (\<exists>t1 g1. mcts_iterate x (nat n) (reset_statistics t, g) = Inr (t1, g1)
           \<and> run_mcts cfg g t = final_report g1 t1))
   \<and> (mcts_iterations cfg = Some n \<and> n < 1 \<longrightarrow>
        run_mcts cfg g t = final_report g (reset_statistics t))
   \<and> (mcts_iterations cfg = Some n \<and> n < 1
        \<and> list_all (\<lambda>f. visits f = 0 \<and> wins f = 0) (all_fields t) \<longrightarrow>
        run_mcts cfg g t = final_report g t)"
proof (intro conjI impI)
  show "run_mcts cfg g t \<noteq> Inl ConfigError"
    using run_mcts_error [of cfg g t ConfigError] by auto
next
  assume a: "mcts_iterations cfg = Some n \<and> exploration_weight cfg = Some x"
  from mcts_iterate_total [of x "nat n" "reset_statistics t" g] obtain t1 g1 where
    i: "mcts_iterate x (nat n) (reset_statistics t, g) = Inr (t1, g1)" by blast
  with a have "run_mcts cfg g t = final_report g1 t1" by (simp add: run_mcts_final_report)
  with i show "\<exists>t1 g1. mcts_iterate x (nat n) (reset_statistics t, g) = Inr (t1, g1)
           \<and> run_mcts cfg g t = final_report g1 t1" by blast
next
  assume "mcts_iterations cfg = Some n \<and> n < 1"
  then show "run_mcts cfg g t = final_report g (reset_statistics t)"
    by (simp add: run_mcts_final_report)
next
  assume a: "mcts_iterations cfg = Some n \<and> n < 1
        \<and> list_all (\<lambda>f. visits f = 0 \<and> wins f = 0) (all_fields t)"
  then have "reset_statistics t = t" by (simp add: reset_statistics_unvisited)
  with a show "run_mcts cfg g t = final_report g t"
    by (simp add: run_mcts_final_report)
qed

theorem run_mcts_no_config_check_witness:
  "mcts_iterations \<lparr>mcts_iterations = Some 2, exploration_weight = Some (- 1)\<rparr> = Some 2
   \<and> exploration_weight \<lparr>mcts_iterations = Some 2, exploration_weight = Some (- 1)\<rparr> = Some (- 1)
   \<and> (\<exists>t1 g1. mcts_iterate (- 1) 2
          (reset_statistics (mcts_root 0 0 [mcts_leaf ''a'' 1 0 0]), \<lambda>k. 0) = Inr (t1, g1)
        \<and> run_mcts \<lparr>mcts_iterations = Some 2, exploration_weight = Some (- 1)\<rparr> (\<lambda>k. 0)
             (mcts_root 0 0 [mcts_leaf ''a'' 1 0 0]) = final_report g1 t1)
   \<and> (0 :: int) < 1
   \<and> list_all (\<lambda>f. visits f = 0 \<and> wins f = 0) (all_fields (mcts_root 0 0 [mcts_leaf ''a'' 1 0 0]))
   \<and> run_mcts \<lparr>mcts_iterations = Some 0, exploration_weight = Some (- 1)\<rparr> (\<lambda>k. 0)
        (mcts_root 0 0 [mcts_leaf ''a'' 1 0 0])
      = final_report (\<lambda>k. 0) (mcts_root 0 0 [mcts_leaf ''a'' 1 0 0])"
proof -
  have h: "list_all (\<lambda>f. visits f = 0 \<and> wins f = 0)
      (all_fields (mcts_root 0 0 [mcts_leaf ''a'' 1 0 0]))"
    by (simp add: mcts_root_def mcts_leaf_def TreeNode_def)
  have c1: "mcts_iterations \<lparr>mcts_iterations = Some 2, exploration_weight = Some (- 1)\<rparr> = Some 2
     \<and> exploration_weight \<lparr>mcts_iterations = Some 2, exploration_weight = Some (- 1)\<rparr>
         = Some (- 1)" by simp
  have c0: "mcts_iterations \<lparr>mcts_iterations = Some 0, exploration_weight = Some (- 1)\<rparr> = Some 0
     \<and> (0 :: int) < 1" by simp
  from c1 run_mcts_no_config_check
        [where cfg = "\<lparr>mcts_iterations = Some 2, exploration_weight = Some (- 1)\<rparr>"
           and g = "\<lambda>k. 0" and t = "mcts_root 0 0 [mcts_leaf ''a'' 1 0 0]" and n = 2
           and x = "- 1"]
  have p1: "\<exists>t1 g1. mcts_iterate (- 1) (nat 2)
          (reset_statistics (mcts_root 0 0 [mcts_leaf ''a'' 1 0 0]), \<lambda>k. 0) = Inr (t1, g1)
        \<and> run_mcts \<lparr>mcts_iterations = Some 2, exploration_weight = Some (- 1)\<rparr> (\<lambda>k. 0)
             (mcts_root 0 0 [mcts_leaf ''a'' 1 0 0]) = final_report g1 t1" by blast
  have n2: "nat 2 = 2" by simp
  from c0 h run_mcts_no_config_check
        [where cfg = "\<lparr>mcts_iterations = Some 0, exploration_weight = Some (- 1)\<rparr>"
           and g = "\<lambda>k. 0" and t = "mcts_root 0 0 [mcts_leaf ''a'' 1 0 0]" and n = 0
           and x = "- 1"]
  have p2: "run_mcts \<lparr>mcts_iterations = Some 0, exploration_weight = Some (- 1)\<rparr> (\<lambda>k. 0)
        (mcts_root 0 0 [mcts_leaf ''a'' 1 0 0])
      = final_report (\<lambda>k. 0) (mcts_root 0 0 [mcts_leaf ''a'' 1 0 0])" by blast
  from c1 c0 h p1 [unfolded n2] p2 show ?thesis by blast
qed

text \<open>
  Claim C9 as stated fails: with \<open>mcts_iterations = 0\<close> the run ends in
  \<^verbatim>\<open>ZeroDivisionError\<close>, not in \<open>ConfigError\<close>, and with the exploration weight \<open>-1\<close> and two
  iterations it completes and reports a best move.
\<close>

theorem run_mcts_accepts_bad_config:
  "run_mcts \<lparr>mcts_iterations = Some 0, exploration_weight = Some 1.4\<rparr> (\<lambda>k. 0)
        (mcts_root 0 0 [mcts_leaf ''a'' 1 0 0]) = Inl ZeroDivisionError
   \<and> run_mcts \<lparr>mcts_iterations = Some 2, exploration_weight = Some (- 1)\<rparr> (\<lambda>k. 0)
        (mcts_root 0 0 [mcts_leaf ''a'' 1 0 0])
       = Inr (''a'', 1, mcts_root 2 2 [mcts_leaf ''a'' 1 1 1])"
proof -
  have h: "list_all (\<lambda>f. visits f = 0 \<and> wins f = 0)
      (all_fields (mcts_root 0 0 [mcts_leaf ''a'' 1 0 0]))"
    by (simp add: mcts_root_def mcts_leaf_def TreeNode_def)
  have c: "children (mcts_root 0 0 [mcts_leaf ''a'' 1 0 0]) \<noteq> []"
    by (simp add: mcts_root_def)
  have 1: "run_mcts \<lparr>mcts_iterations = Some 0, exploration_weight = Some 1.4\<rparr> (\<lambda>k. 0)
        (mcts_root 0 0 [mcts_leaf ''a'' 1 0 0]) = Inl ZeroDivisionError"
    using run_mcts_no_iterations
      [of "\<lparr>mcts_iterations = Some 0, exploration_weight = Some 1.4\<rparr>" 0
          "mcts_root 0 0 [mcts_leaf ''a'' 1 0 0]" "\<lambda>k. 0"] h c by simp
  have r: "reset_statistics (mcts_root 0 0 [mcts_leaf ''a'' 1 0 0])
      = mcts_root 0 0 [mcts_leaf ''a'' 1 0 0]"
    using h by (rule reset_statistics_unvisited)
  have i1: "mcts_iteration (- 1) (mcts_root 0 0 [mcts_leaf ''a'' 1 0 0], \<lambda>k. 0)
      = Inr (mcts_root 1 1 [mcts_leaf ''a'' 1 0 0], \<lambda>k. 0)"
    by (simp add: mcts_iteration_def mcts_selection.simps expansion_phase_def
        mcts_simulation.simps mcts_backpropagation.simps mcts_root_def mcts_leaf_def
        TreeNode_def next_draw_def backprop_update_def)
  have i2: "mcts_iteration (- 1) (mcts_root 1 1 [mcts_leaf ''a'' 1 0 0], \<lambda>k. 0)
      = Inr (mcts_root 2 2 [mcts_leaf ''a'' 1 1 1], \<lambda>k. 0)"
    by (simp add: mcts_iteration_def mcts_selection.simps expansion_phase_def
        mcts_expansion_def mcts_simulation.simps mcts_backpropagation.simps mcts_root_def
        mcts_leaf_def TreeNode_def next_draw_def backprop_update_def)
  have b: "get_best_child (\<lambda>k. 0) (mcts_root 2 2 [mcts_leaf ''a'' 1 1 1]) 0 = Inr (0, \<lambda>k. 0)"
    by (simp add: get_best_child_def calculate_ucb_def random_choice_def next_draw_def
        mcts_root_def mcts_leaf_def TreeNode_def)
  have 2: "run_mcts \<lparr>mcts_iterations = Some 2, exploration_weight = Some (- 1)\<rparr> (\<lambda>k. 0)
        (mcts_root 0 0 [mcts_leaf ''a'' 1 0 0])
       = Inr (''a'', 1, mcts_root 2 2 [mcts_leaf ''a'' 1 1 1])"
    using r i1 i2 b
    by (simp add: run_mcts_def numeral_2_eq_2) (simp add: mcts_root_def mcts_leaf_def TreeNode_def)
  from 1 2 show ?thesis by simp
qed

section \<open>No format error\<close>

text \<open>
  Claim C5, as amended. The builder validates nothing and raises \<open>TreeFormatError\<close> for no
  tree file. A tree in which every entry carries an \<^verbatim>\<open>"id"\<close> is built without any error,
  also when an id is repeated, a node has both children and a value, or a node has neither;
  a tree with an entry that lacks its \<^verbatim>\<open>"id"\<close> makes the build fail with \<^verbatim>\<open>KeyError\<close>.
  No \<open>TreeFormatError\<close> is raised during search either, by minimax or by the Monte Carlo
  run. (Tree files are taken as the specification types them: an optional id, an optional
  number, an optional list of children.)
\<close>

theorem build_tree_no_format_error:
  "build_tree td \<noteq> Inl TreeFormatError
   \<and> (\<not> id_missing r \<longrightarrow> (\<exists>t. build_tree (RootData r) = Inr (Some t)))
   \<and> (id_missing r \<longrightarrow> build_tree (RootData r) = Inl KeyError)
   \<and> minimax pruning t a b \<noteq> Inl TreeFormatError
   \<and> run_mcts cfg g t \<noteq> Inl TreeFormatError"
proof (intro conjI impI)
  show "build_tree td \<noteq> Inl TreeFormatError"
    using build_tree_error [of td TreeFormatError] by auto
next
  assume "\<not> id_missing r"
  then have "\<not> isl (build_tree (RootData r))" unfolding build_tree_isl .
  then obtain x where x: "build_tree (RootData r) = Inr x"
    by (cases "build_tree (RootData r)") auto
  then obtain t where "x = Some t" by (auto split: sum.splits)
  with x show "\<exists>t. build_tree (RootData r) = Inr (Some t)" by blast
next
  assume "id_missing r"
  then have "isl (build_tree (RootData r))" unfolding build_tree_isl .
  then obtain e where e: "build_tree (RootData r) = Inl e"
    by (cases "build_tree (RootData r)") auto
  with build_tree_error [OF e] show "build_tree (RootData r) = Inl KeyError" by simp
next
  show "minimax pruning t a b \<noteq> Inl TreeFormatError"
    using minimax_error(1) [of pruning t a b TreeFormatError] by auto
  show "run_mcts cfg g t \<noteq> Inl TreeFormatError"
    using run_mcts_error [of cfg g t TreeFormatError] by auto
qed

theorem build_tree_no_format_error_witness:
  "id_missing (JNode (Some ''r'') None [JNode None (Some 1) []])
   \<and> build_tree (RootData (JNode (Some ''r'') None [JNode None (Some 1) []])) = Inl KeyError
   \<and> \<not> id_missing (JNode (Some ''r'') (Some 7)
          [JNode (Some ''a'') None [], JNode (Some ''a'') (Some 1) []])
   \<and> (\<exists>t. build_tree (RootData (JNode (Some ''r'') (Some 7)
          [JNode (Some ''a'') None [], JNode (Some ''a'') (Some 1) []])) = Inr (Some t))"
proof -
  have h1: "id_missing (JNode (Some ''r'') None [JNode None (Some 1) []])"
    by (simp add: id_missing_def)
  have h2: "\<not> id_missing (JNode (Some ''r'') (Some 7)
          [JNode (Some ''a'') None [], JNode (Some ''a'') (Some 1) []])"
    by (simp add: id_missing_def)
  show ?thesis
    using h1 h2
      build_tree_no_format_error [where r = "JNode (Some ''r'') None [JNode None (Some 1) []]"]
      build_tree_no_format_error [where r = "JNode (Some ''r'') (Some 7)
          [JNode (Some ''a'') None [], JNode (Some ''a'') (Some 1) []]"]
    by blast
qed

text \<open>
  Claim C5 as stated fails. The first tree file repeats the id \<open>a\<close>, gives the root both
  children and a value and has a childless node without a value, and it is built without
  any error; the second lacks an id, and the build fails with \<^verbatim>\<open>KeyError\<close>, not with
  \<open>TreeFormatError\<close>.
\<close>

theorem build_tree_accepts_malformed:
  "spec_malformed (JNode (Some ''r'') (Some 7)
       [JNode (Some ''a'') None [], JNode (Some ''a'') (Some 1) []])
   \<and> \<not> isl (build_tree (RootData (JNode (Some ''r'') (Some 7)
       [JNode (Some ''a'') None [], JNode (Some ''a'') (Some 1) []])))
   \<and> spec_malformed (JNode (Some ''r'') None [JNode None (Some 1) []])
   \<and> build_tree (RootData (JNode (Some ''r'') None [JNode None (Some 1) []])) = Inl KeyError"
  by (simp add: spec_malformed_def)

end
